theory Spec2Isabelle
  imports Main "HOL-Library.Word" "HOL-Library.Multiset" "HOL-Library.Sublist"
begin

section \<open>Data model of hzip.py\<close>

text \<open>
  A byte of a file is an 8-bit word; iterating a Python \<open>bytes\<close> object yields such
  values (integers in the range 0..255).
\<close>

type_synonym byte = "8 word"

text \<open>
  The class \<open>Node\<close> (lines 6-16): four fields, each of which may be Python's \<open>None\<close>
  where the constructor's default says so. A leaf is a node whose \<open>char\<close> is set;
  the source tests exactly that (\<open>node.char is not None\<close>), so the byte 0 is a leaf
  value like any other. \<open>freq\<close> is an unbounded Python integer.
\<close>

datatype node =
  Node (char: "byte option") (freq: int) (left: "node option") (right: "node option")

text \<open>\<open>Node.__lt__\<close> (lines 14-16): nodes are ordered by \<open>freq\<close> alone.\<close>

definition node_lt :: "node \<Rightarrow> node \<Rightarrow> bool" where
  "node_lt self other = (freq self < freq other)"

text \<open>
  The exceptions the modelled code can raise. A function that can raise returns a sum,
  \<open>Inl\<close> the exception. Every one of them is caught by the \<open>except Exception\<close>
  clause of \<open>compress\<close> or \<open>decompress\<close>. Python's recursion limit is not
  modelled: the recursive methods are total.
\<close>

datatype exn =
  FileNotFoundError | IndexError | KeyError | ValueError | StructError
  | AttributeError | UnpicklingError

text \<open>
  What a call of \<open>compress\<close> or \<open>decompress\<close> reports. The source returns \<open>True\<close>
  on success and \<open>False\<close> on every failure, and tells the failures apart by the
  message it prints: \<open>Empty_Input\<close> is line 131 (the input file is empty),
  \<open>Not_HZIP\<close> is line 200 (the file is not in HZIP format), and \<open>Caught e\<close> is the
  handler of lines 186-188 and 234-236, which prints the exception.
\<close>

datatype outcome = Returned_True | Empty_Input | Not_HZIP | Caught exn


text \<open>
  The file system the two entry points read and write: a map from path to content.
  Opening a missing file for reading raises; opening a file for writing creates or
  truncates it.
\<close>

type_synonym fs = "string \<rightharpoonup> byte list"

section \<open>The standard library's heapq on a list of nodes\<close>

text \<open>
  The source imports \<open>heapq\<close> and keeps the forest in a Python list used as a binary
  heap. Which of two nodes of equal weight is popped first, hence the shape of the
  tree, is decided by that module, so its two operations are written out here as
  CPython's \<open>Lib/heapq.py\<close> has them, with \<open>Node.__lt__\<close> as the comparison.

  \<open>_siftdown(heap, startpos, pos)\<close> moves the item at \<open>pos\<close> up towards \<open>startpos\<close>
  while it is smaller than its parent. All indices it reads are in range when
  \<open>pos < len(heap)\<close>, which holds at both call sites.
\<close>

function siftdown_loop :: "node list \<Rightarrow> nat \<Rightarrow> nat \<Rightarrow> node \<Rightarrow> node list" where
  "siftdown_loop heap startpos pos newitem =
     (if pos > startpos then
        (let parentpos = (pos - 1) div 2;
             parent = heap ! parentpos
         in if node_lt newitem parent
            then siftdown_loop (heap[pos := parent]) startpos parentpos newitem
            else heap[pos := newitem])
      else heap[pos := newitem])"
  by pat_completeness auto
termination
  by (relation "measure (\<lambda>(heap, startpos, pos, newitem). pos)") auto

declare siftdown_loop.simps [simp del]

definition siftdown :: "node list \<Rightarrow> nat \<Rightarrow> nat \<Rightarrow> node list" where
  "siftdown heap startpos pos = siftdown_loop heap startpos pos (heap ! pos)"

text \<open>
  \<open>_siftup(heap, pos)\<close>: the smaller child is moved up until a leaf position is
  reached, the item is put there and sifted down again. The loop returns the heap and
  the final position.
\<close>

function siftup_loop :: "node list \<Rightarrow> nat \<Rightarrow> nat \<Rightarrow> node list \<times> nat" where
  "siftup_loop heap endpos pos =
     (let childpos = 2 * pos + 1
      in if childpos < endpos then
           (let rightpos = childpos + 1;
                childpos = (if rightpos < endpos \<and> \<not> node_lt (heap ! childpos) (heap ! rightpos)
                            then rightpos else childpos)
            in siftup_loop (heap[pos := heap ! childpos]) endpos childpos)
         else (heap, pos))"
  by pat_completeness auto
termination
  by (relation "measure (\<lambda>(heap, endpos, pos). endpos - pos)") (auto simp: Let_def)

declare siftup_loop.simps [simp del]

definition siftup :: "node list \<Rightarrow> nat \<Rightarrow> node list" where
  "siftup heap pos =
     (let endpos = length heap;
          startpos = pos;
          newitem = heap ! pos;
          (heap, pos) = siftup_loop heap endpos pos;
          heap = heap[pos := newitem]
      in siftdown heap startpos pos)"

text \<open>\<open>heappush(heap, item)\<close>: append, then sift the new item up.\<close>

definition heappush :: "node list \<Rightarrow> node \<Rightarrow> node list" where
  "heappush heap item = (let heap = heap @ [item] in siftdown heap 0 (length heap - 1))"

text \<open>
  \<open>heappop(heap)\<close> returns the smallest item and the remaining heap; on an empty
  list \<open>heap.pop()\<close> raises \<open>IndexError\<close>.
\<close>

definition heappop :: "node list \<Rightarrow> exn + (node \<times> node list)" where
  "heappop heap =
     (if heap = [] then Inl IndexError
      else let lastelt = last heap;
               heap = butlast heap
           in if heap \<noteq> [] then
                (let returnitem = heap ! 0;
                     heap = heap[0 := lastelt];
                     heap = siftup heap 0
                 in Inr (returnitem, heap))
              else Inr (lastelt, heap))"


subsection \<open>What the heap operations keep\<close>

lemma mset_update_swap:
  assumes "i < length xs" and "j < length xs"
  shows "mset (xs[i := xs ! j, j := y]) = mset (xs[i := y])"
proof (cases "i = j")
  case True
  then show ?thesis by simp
next
  case False
  with assms show ?thesis
    by (simp add: mset_update nth_list_update)
qed

lemma siftdown_loop_length [simp]:
  "length (siftdown_loop heap startpos pos newitem) = length heap"
proof (induction heap startpos pos newitem rule: siftdown_loop.induct)
  case (1 heap startpos pos newitem)
  then show ?case
    by (subst siftdown_loop.simps) (simp add: Let_def)
qed

lemma siftdown_loop_mset:
  "pos < length heap \<Longrightarrow>
   mset (siftdown_loop heap startpos pos newitem) = mset (heap[pos := newitem])"
proof (induction heap startpos pos newitem rule: siftdown_loop.induct)
  case (1 heap startpos pos newitem)
  let ?pp = "(pos - 1) div 2"
  show ?case
  proof (cases "pos > startpos \<and> node_lt newitem (heap ! ?pp)")
    case True
    have pp: "?pp < length heap" using "1.prems" by simp
    have "mset (siftdown_loop heap startpos pos newitem)
          = mset (siftdown_loop (heap[pos := heap ! ?pp]) startpos ?pp newitem)"
      using True by (subst siftdown_loop.simps) (simp add: Let_def)
    also have "\<dots> = mset (heap[pos := heap ! ?pp, ?pp := newitem])"
      using True pp "1.IH" [of ?pp "heap ! ?pp"] by simp
    also have "\<dots> = mset (heap[pos := newitem])"
      using "1.prems" pp by (rule mset_update_swap)
    finally show ?thesis .
  next
    case False
    then show ?thesis
      by (subst siftdown_loop.simps) (auto simp: Let_def)
  qed
qed

lemma siftdown_length [simp]: "length (siftdown heap startpos pos) = length heap"
  by (simp add: siftdown_def)

lemma siftdown_mset: "pos < length heap \<Longrightarrow> mset (siftdown heap startpos pos) = mset heap"
  by (simp add: siftdown_def siftdown_loop_mset)

lemma siftup_loop_keeps:
  "pos < length heap \<Longrightarrow> siftup_loop heap (length heap) pos = (heap', pos') \<Longrightarrow>
   length heap' = length heap \<and> pos' < length heap \<and>
   mset (heap'[pos' := x]) = mset (heap[pos := x])"
proof (induction heap "length heap" pos arbitrary: heap' pos' rule: siftup_loop.induct)
  case (1 heap pos)
  let ?c = "2 * pos + 1"
  let ?c' = "if ?c + 1 < length heap \<and> \<not> node_lt (heap ! ?c) (heap ! (?c + 1)) then ?c + 1 else ?c"
  show ?case
  proof (cases "?c < length heap")
    case True
    then have c': "?c' < length heap" by simp
    let ?h = "heap[pos := heap ! ?c']"
    have run: "siftup_loop ?h (length ?h) ?c' = (heap', pos')"
      using "1.prems"(2) True
      by (subst (asm) siftup_loop.simps) (auto simp: Let_def split: if_splits)
    have len: "length heap = length ?h" by simp
    have "length heap' = length ?h \<and> pos' < length ?h \<and>
          mset (heap'[pos' := x]) = mset (?h[?c' := x])"
      using "1.hyps" [OF refl True refl refl len _ run] c' by simp
    moreover have "mset (?h[?c' := x]) = mset (heap[pos := x])"
      using "1.prems"(1) c' by (rule mset_update_swap)
    ultimately show ?thesis by simp
  next
    case False
    then have "siftup_loop heap (length heap) pos = (heap, pos)"
      by (subst siftup_loop.simps) (simp add: Let_def)
    with "1.prems" show ?thesis by simp
  qed
qed

lemma siftup_keeps:
  assumes "pos < length heap"
  shows "length (siftup heap pos) = length heap" and "mset (siftup heap pos) = mset heap"
proof -
  obtain heap' pos' where run: "siftup_loop heap (length heap) pos = (heap', pos')"
    by (cases "siftup_loop heap (length heap) pos")
  from siftup_loop_keeps [OF assms run, of "heap ! pos"]
  have k: "length heap' = length heap" "pos' < length heap"
    "mset (heap'[pos' := heap ! pos]) = mset heap"
    by simp_all
  have eq: "siftup heap pos = siftdown (heap'[pos' := heap ! pos]) pos pos'"
    by (simp add: siftup_def run)
  show "length (siftup heap pos) = length heap" by (simp add: eq k)
  show "mset (siftup heap pos) = mset heap"
    using k by (simp add: eq siftdown_mset)
qed

lemma heappush_length [simp]: "length (heappush heap item) = Suc (length heap)"
  by (simp add: heappush_def)

lemma heappush_mset [simp]: "mset (heappush heap item) = add_mset item (mset heap)"
  by (simp add: heappush_def siftdown_mset)

lemma heappop_Inr:
  assumes "heap \<noteq> []"
  shows "\<exists>x heap'. heappop heap = Inr (x, heap') \<and> mset heap = add_mset x (mset heap')
           \<and> length heap = Suc (length heap')"
proof (cases "butlast heap = []")
  case True
  with assms have "heap = [last heap]"
    by (metis append_butlast_last_id append_Nil)
  then have "mset heap = {#last heap#}" "length heap = 1"
    by (metis mset_single_iff_right mset.simps, metis length_Cons list.size(3) One_nat_def)
  with assms True show ?thesis by (simp add: heappop_def Let_def)
next
  case False
  let ?b = "butlast heap"
  let ?h = "?b[0 := last heap]"
  have b: "0 < length ?b" using False by (metis length_greater_0_conv)
  have pop: "heappop heap = Inr (?b ! 0, siftup ?h 0)"
    using assms False by (simp add: heappop_def Let_def)
  have "mset heap = add_mset (last heap) (mset ?b)"
    using assms by (metis append_butlast_last_id mset.simps(2) mset_append union_mset_add_mset_right add.right_neutral mset.simps(1))
  also have "\<dots> = add_mset (?b ! 0) (mset ?h)"
    using b by (simp add: mset_update)
  finally have "mset heap = add_mset (?b ! 0) (mset (siftup ?h 0))"
    using b by (simp add: siftup_keeps)
  moreover have "length heap = Suc (length (siftup ?h 0))"
  proof -
    have "length (siftup ?h 0) = length ?h"
      using b by (intro siftup_keeps) simp
    moreover have "0 < length heap" using assms by simp
    ultimately show ?thesis by simp
  qed
  ultimately show ?thesis using pop by blast
qed

lemma heappop_keeps:
  assumes "heappop heap = Inr (x, heap')"
  shows "mset heap = add_mset x (mset heap')" and "length heap = Suc (length heap')"
proof -
  from assms have "heap \<noteq> []" by (auto simp: heappop_def)
  from heappop_Inr [OF this] assms
  show "mset heap = add_mset x (mset heap')" and "length heap = Suc (length heap')" by auto
qed


section \<open>The class HuffmanCoding\<close>

text \<open>
  The fields \<open>self.root\<close> and \<open>self.codes\<close> are assigned in each call before they
  are read, so no call depends on an earlier one and the methods are modelled as
  functions of their arguments.
\<close>

subsection \<open>Frequency table (lines 25-27)\<close>

text \<open>
  \<open>Counter(data)\<close> is a dictionary filled in one pass, \<open>counts[b] = counts.get(b, 0) + 1\<close>;
  iterating its \<open>items()\<close> yields the keys in the order of their first occurrence. The
  order decides the order of the pushes, so the table is an association list.
\<close>

fun counter_add :: "(byte \<times> int) list \<Rightarrow> byte \<Rightarrow> (byte \<times> int) list" where
  "counter_add [] elem = [(elem, 1)]"
| "counter_add ((k, n) # kvs) elem =
     (if k = elem then (k, n + 1) # kvs else (k, n) # counter_add kvs elem)"

definition build_frequency_table :: "byte list \<Rightarrow> (byte \<times> int) list" where
  "build_frequency_table data = foldl counter_add [] data"

subsection \<open>Tree construction (lines 29-54)\<close>

text \<open>The loop of lines 47-52; it returns the heap it ends with.\<close>

function merge_loop :: "node list \<Rightarrow> exn + node list" where
  "merge_loop heap =
     (if length heap > 1 then
        (case heappop heap of
           Inl e \<Rightarrow> Inl e
         | Inr (left_node, heap) \<Rightarrow>
             (case heappop heap of
                Inl e \<Rightarrow> Inl e
              | Inr (right_node, heap) \<Rightarrow>
                  (let merged = Node None (freq left_node + freq right_node)
                                  (Some left_node) (Some right_node)
                   in merge_loop (heappush heap merged))))
      else Inr heap)"
  by pat_completeness auto
termination
  by (relation "measure length") (auto dest!: heappop_keeps(2))

declare merge_loop.simps [simp del]

text \<open>The loop of lines 35-38: one leaf per entry of the table, pushed in its order.\<close>

definition push_leaves :: "(byte \<times> int) list \<Rightarrow> node list" where
  "push_leaves freq_table =
     foldl (\<lambda>heap (ch, fr). heappush heap (Node (Some ch) fr None None)) [] freq_table"

text \<open>
  With one entry the root gets the weight of \<open>heap[0]\<close> and the popped leaf as its
  left child; its right child stays \<open>None\<close>. Otherwise the root is \<open>heap[0]\<close> after
  the loop.
\<close>

definition build_huffman_tree :: "(byte \<times> int) list \<Rightarrow> exn + node option" where
  "build_huffman_tree freq_table =
     (if freq_table = [] then Inr None
      else
        let heap = push_leaves freq_table
        in if length heap = 1 then
             (case heappop heap of
                Inl e \<Rightarrow> Inl e
              | Inr (leaf, heap') \<Rightarrow> Inr (Some (Node None (freq (heap ! 0)) (Some leaf) None)))
           else
             (case merge_loop heap of
                Inl e \<Rightarrow> Inl e
              | Inr heap \<Rightarrow> (case heap of [] \<Rightarrow> Inl IndexError | root # _ \<Rightarrow> Inr (Some root))))"

subsection \<open>Code table (lines 56-73)\<close>

text \<open>
  \<open>dfs\<close> writes into the dictionary \<open>codes\<close> of the enclosing call; here it takes the
  dictionary and returns it updated. A bit-string is a Python \<open>str\<close> of the characters
  \<open>0\<close> and \<open>1\<close>. A node object is truthy, so \<open>if node.left\<close> tests for \<open>None\<close>.
\<close>

fun dfs :: "node \<Rightarrow> string \<Rightarrow> (byte \<rightharpoonup> string) \<Rightarrow> (byte \<rightharpoonup> string)" where
  "dfs (Node c f l r) code codes =
     (case c of
        Some ch \<Rightarrow> codes(ch \<mapsto> (if code \<noteq> [] then code else ''0''))
      | None \<Rightarrow>
          (let codes = (case l of Some ln \<Rightarrow> dfs ln (code @ ''0'') codes | None \<Rightarrow> codes)
           in (case r of Some rn \<Rightarrow> dfs rn (code @ ''1'') codes | None \<Rightarrow> codes)))"

definition build_codes :: "node option \<Rightarrow> (byte \<rightharpoonup> string)" where
  "build_codes root = (case root of None \<Rightarrow> Map.empty | Some n \<Rightarrow> dfs n [] Map.empty)"

subsection \<open>Encoding and decoding (lines 75-101)\<close>

text \<open>\<open>codes[char]\<close> raises \<open>KeyError\<close> for a byte without a code.\<close>

fun encode_data :: "byte list \<Rightarrow> (byte \<rightharpoonup> string) \<Rightarrow> exn + string" where
  "encode_data [] codes = Inr []"
| "encode_data (ch # data) codes =
     (case codes ch of
        None \<Rightarrow> Inl KeyError
      | Some code \<Rightarrow>
          (case encode_data data codes of Inl e \<Rightarrow> Inl e | Inr rest \<Rightarrow> Inr (code @ rest)))"

text \<open>
  The loop of lines 87-95 and the final test of lines 98-99. \<open>current\<close> becomes
  \<open>None\<close> when the walk takes a missing child; reading \<open>current.char\<close> then raises
  \<open>AttributeError\<close>.
\<close>

fun decode_loop :: "node \<Rightarrow> string \<Rightarrow> node option \<Rightarrow> byte list \<Rightarrow> exn + byte list" where
  "decode_loop root [] current decoded =
     (case current of
        None \<Rightarrow> Inl AttributeError
      | Some cur \<Rightarrow> (case char cur of Some ch \<Rightarrow> Inr (decoded @ [ch]) | None \<Rightarrow> Inr decoded))"
| "decode_loop root (b # bits) current decoded =
     (case current of
        None \<Rightarrow> Inl AttributeError
      | Some cur \<Rightarrow>
          (let (decoded, cur) =
                 (case char cur of Some ch \<Rightarrow> (decoded @ [ch], root) | None \<Rightarrow> (decoded, cur))
           in decode_loop root bits (if b = CHR ''0'' then left cur else right cur) decoded))"

definition decode_data :: "string \<Rightarrow> node option \<Rightarrow> exn + byte list" where
  "decode_data encoded_data root =
     (case root of
        None \<Rightarrow> Inr []
      | Some r \<Rightarrow> if encoded_data = [] then Inr [] else decode_loop r encoded_data (Some r) [])"

subsection \<open>Tree serialization (lines 103-121)\<close>

text \<open>
  The values \<open>_serialize_tree\<close> returns: \<open>None\<close>, the pair \<open>('leaf', char)\<close> and the
  triple \<open>('internal', left, right)\<close>.
\<close>

datatype tree_data = TNone | TLeaf byte | TInternal tree_data tree_data

function serialize_tree :: "node option \<Rightarrow> tree_data" where
  "serialize_tree None = TNone"
| "serialize_tree (Some (Node c f l r)) =
     (case c of
        Some ch \<Rightarrow> TLeaf ch
      | None \<Rightarrow> TInternal (serialize_tree l) (serialize_tree r))"
  by pat_completeness auto
termination
  by (relation "measure (size_option size)") auto

fun deserialize_tree :: "tree_data \<Rightarrow> node option" where
  "deserialize_tree TNone = None"
| "deserialize_tree (TLeaf ch) = Some (Node (Some ch) 0 None None)"
| "deserialize_tree (TInternal l r) =
     (let left_node = deserialize_tree l;
          right_node = deserialize_tree r
      in Some (Node None 0 left_node right_node))"

text \<open>
  The tree travels through \<open>pickle.dumps\<close> and \<open>pickle.loads\<close>, which are not part of
  the program: both are parameters of the model. \<open>loads\<close> is given the bytes of the
  tree section and returns the value or raises.
\<close>

type_synonym dumps = "tree_data \<Rightarrow> byte list"
type_synonym loads = "byte list \<Rightarrow> exn + tree_data"

subsection \<open>Bits and bytes (lines 145-152 and 216-220)\<close>

text \<open>
  \<open>int(byte, 2)\<close> on a string of the digits \<open>0\<close> and \<open>1\<close>. The program builds its
  bit-strings from these two characters only; any other character is taken to raise
  \<open>ValueError\<close>, as does the empty string.
\<close>

fun bits_value :: "string \<Rightarrow> nat \<Rightarrow> exn + nat" where
  "bits_value [] acc = Inr acc"
| "bits_value (c # cs) acc =
     (if c = CHR ''0'' then bits_value cs (2 * acc)
      else if c = CHR ''1'' then bits_value cs (2 * acc + 1)
      else Inl ValueError)"

definition int_base2 :: "string \<Rightarrow> exn + nat" where
  "int_base2 s = (if s = [] then Inl ValueError else bits_value s 0)"

text \<open>Lines 145-147: the padding count and the padded bit-string.\<close>

definition pad_bits :: "string \<Rightarrow> nat \<times> string" where
  "pad_bits encoded_data =
     (let padding = 8 - length encoded_data mod 8
      in if padding \<noteq> 8 then (padding, encoded_data @ replicate padding (CHR ''0''))
         else (padding, encoded_data))"

text \<open>
  Lines 149-152: one byte per slice \<open>encoded_data[i:i+8]\<close>, \<open>i = 0, 8, 16, ...\<close>;
  \<open>bytearray.append\<close> raises \<open>ValueError\<close> outside 0..255.
\<close>

function pack_bits :: "string \<Rightarrow> exn + byte list" where
  "pack_bits encoded_data =
     (if encoded_data = [] then Inr []
      else
        (case int_base2 (take 8 encoded_data) of
           Inl e \<Rightarrow> Inl e
         | Inr v \<Rightarrow>
             if v < 256 then
               (case pack_bits (drop 8 encoded_data) of
                  Inl e \<Rightarrow> Inl e
                | Inr compressed_data \<Rightarrow> Inr (of_nat v # compressed_data))
             else Inl ValueError))"
  by pat_completeness auto
termination
  by (relation "measure length") auto

declare pack_bits.simps [simp del]

text \<open>\<open>format(byte, '08b')\<close>: the eight binary digits of a byte, most significant first.\<close>

fun to_bits :: "nat \<Rightarrow> nat \<Rightarrow> string" where
  "to_bits 0 v = []"
| "to_bits (Suc n) v = to_bits n (v div 2) @ [if v mod 2 = 1 then CHR ''1'' else CHR ''0'']"

definition format_08b :: "byte \<Rightarrow> string" where
  "format_08b b = to_bits 8 (unat b)"

text \<open>
  Lines 219-220: \<open>encoded_data[:-padding]\<close> unless the count is 8. The slice keeps the
  first \<open>len - padding\<close> characters, none when \<open>padding\<close> exceeds the length, and none
  when \<open>padding\<close> is 0, since \<open>s[:-0]\<close> is \<open>s[:0]\<close>.
\<close>

definition strip_padding :: "nat \<Rightarrow> string \<Rightarrow> string" where
  "strip_padding padding encoded_data =
     (if padding \<noteq> 8 then
        (if padding = 0 then [] else take (length encoded_data - padding) encoded_data)
      else encoded_data)"

subsection \<open>The container (lines 155-170 and 194-213)\<close>

definition HZIP :: "byte list" where
  "HZIP = [0x48, 0x5A, 0x49, 0x50]"

text \<open>\<open>struct.pack\<close> and \<open>struct.unpack\<close> with the formats \<open><I\<close> and \<open><B\<close>.\<close>

definition pack_u32 :: "nat \<Rightarrow> exn + byte list" where
  "pack_u32 n =
     (if n < 2 ^ 32
      then Inr [of_nat n, of_nat (n div 2 ^ 8), of_nat (n div 2 ^ 16), of_nat (n div 2 ^ 24)]
      else Inl StructError)"

definition pack_u8 :: "nat \<Rightarrow> exn + byte list" where
  "pack_u8 n = (if n < 2 ^ 8 then Inr [of_nat n] else Inl StructError)"

definition unpack_u32 :: "byte list \<Rightarrow> exn + nat" where
  "unpack_u32 bs =
     (case bs of
        [b0, b1, b2, b3] \<Rightarrow> Inr (unat b0 + 2 ^ 8 * unat b1 + 2 ^ 16 * unat b2 + 2 ^ 24 * unat b3)
      | _ \<Rightarrow> Inl StructError)"

definition unpack_u8 :: "byte list \<Rightarrow> exn + nat" where
  "unpack_u8 bs = (case bs of [b0] \<Rightarrow> Inr (unat b0) | _ \<Rightarrow> Inl StructError)"

subsection \<open>compress (lines 123-188)\<close>

text \<open>Lines 137-142: the tree and the encoded bit-string of the data.\<close>

definition huffman_encode :: "byte list \<Rightarrow> exn + (node option \<times> string)" where
  "huffman_encode data =
     (let freq_table = build_frequency_table data
      in case build_huffman_tree freq_table of
           Inl e \<Rightarrow> Inl e
         | Inr root \<Rightarrow>
             (let codes = build_codes root
              in case encode_data data codes of
                   Inl e \<Rightarrow> Inl e
                 | Inr encoded_data \<Rightarrow> Inr (root, encoded_data)))"

text \<open>
  The output file is opened, and so created or emptied, only after the payload is
  complete; the tag is written first, so an exception raised inside the \<open>with\<close>
  block leaves a file that holds the bytes written so far. The sizes and ratios printed
  afterwards (lines 172-182) do not change the result; the input is not empty there, so
  the division by its length does not raise.
\<close>

definition compress :: "dumps \<Rightarrow> fs \<Rightarrow> string \<Rightarrow> string \<Rightarrow> outcome \<times> fs" where
  "compress dumps fs input_file output_file =
     (case fs input_file of
        None \<Rightarrow> (Caught FileNotFoundError, fs)
      | Some data \<Rightarrow>
          if data = [] then (Empty_Input, fs)
          else
            (case huffman_encode data of
               Inl e \<Rightarrow> (Caught e, fs)
             | Inr (root, encoded_data) \<Rightarrow>
                 (let (padding, encoded_data) = pad_bits encoded_data
                  in case pack_bits encoded_data of
                       Inl e \<Rightarrow> (Caught e, fs)
                     | Inr compressed_data \<Rightarrow>
                         (let written = HZIP;
                              tree_data = serialize_tree root;
                              tree_bytes = dumps tree_data
                          in case pack_u32 (length tree_bytes) of
                               Inl e \<Rightarrow> (Caught e, fs(output_file \<mapsto> written))
                             | Inr size_bytes \<Rightarrow>
                                 (let written = written @ size_bytes
                                  in case pack_u8 padding of
                                       Inl e \<Rightarrow> (Caught e, fs(output_file \<mapsto> written))
                                     | Inr padding_byte \<Rightarrow>
                                         (let written = written @ padding_byte;
                                              written = written @ tree_bytes;
                                              written = written @ compressed_data
                                          in (Returned_True, fs(output_file \<mapsto> written))))))))"

subsection \<open>decompress (lines 190-236)\<close>

text \<open>
  \<open>f.read(n)\<close> returns at most \<open>n\<close> bytes, fewer at the end of the file. The output
  file is opened only after decoding has succeeded.
\<close>

definition decompress :: "loads \<Rightarrow> fs \<Rightarrow> string \<Rightarrow> string \<Rightarrow> outcome \<times> fs" where
  "decompress loads fs input_file output_file =
     (case fs input_file of
        None \<Rightarrow> (Caught FileNotFoundError, fs)
      | Some f \<Rightarrow>
          (let magic = take 4 f; f = drop 4 f
           in if magic \<noteq> HZIP then (Not_HZIP, fs)
              else
                (case unpack_u32 (take 4 f) of
                   Inl e \<Rightarrow> (Caught e, fs)
                 | Inr tree_size \<Rightarrow>
                     (let f = drop 4 f
                      in case unpack_u8 (take 1 f) of
                           Inl e \<Rightarrow> (Caught e, fs)
                         | Inr padding \<Rightarrow>
                             (let f = drop 1 f;
                                  tree_bytes = take tree_size f;
                                  f = drop tree_size f
                              in case loads tree_bytes of
                                   Inl e \<Rightarrow> (Caught e, fs)
                                 | Inr tree_data \<Rightarrow>
                                     (let root = deserialize_tree tree_data;
                                          compressed_data = f;
                                          encoded_data = concat (map format_08b compressed_data);
                                          encoded_data = strip_padding padding encoded_data
                                      in case decode_data encoded_data root of
                                           Inl e \<Rightarrow> (Caught e, fs)
                                         | Inr decoded_data \<Rightarrow>
                                             (Returned_True, fs(output_file \<mapsto> decoded_data))))))))"

subsection \<open>A stand-in for pickle\<close>

text \<open>
  To run the two entry points on concrete files the parameters need values. This
  pair writes a tree value in prefix order, one tag byte per value, and reads it back;
  like \<open>pickle.loads\<close> it ignores what follows the value.
\<close>

fun sample_dumps :: "tree_data \<Rightarrow> byte list" where
  "sample_dumps TNone = [0x4E]"
| "sample_dumps (TLeaf ch) = [0x4C, ch]"
| "sample_dumps (TInternal l r) = 0x49 # sample_dumps l @ sample_dumps r"

fun sample_parse :: "nat \<Rightarrow> byte list \<Rightarrow> (tree_data \<times> byte list) option" where
  "sample_parse 0 bs = None"
| "sample_parse (Suc n) [] = None"
| "sample_parse (Suc n) (t # bs) =
     (if t = 0x4E then Some (TNone, bs)
      else if t = 0x4C then (case bs of [] \<Rightarrow> None | ch # bs \<Rightarrow> Some (TLeaf ch, bs))
      else if t = 0x49 then
        (case sample_parse n bs of
           None \<Rightarrow> None
         | Some (l, bs) \<Rightarrow>
             (case sample_parse n bs of None \<Rightarrow> None | Some (r, bs) \<Rightarrow> Some (TInternal l r, bs)))
      else None)"

definition sample_loads :: "byte list \<Rightarrow> exn + tree_data" where
  "sample_loads bs =
     (case sample_parse (length bs) bs of None \<Rightarrow> Inl UnpicklingError | Some (t, _) \<Rightarrow> Inr t)"


section \<open>Notions used to state and prove the properties\<close>

text \<open>
  The leaves of a tree as \<open>dfs\<close> and the decoding walk see them: each byte of a node
  whose \<open>char\<close> is set, with the path of bits that leads to it from the root
  (\<open>0\<close> for left, \<open>1\<close> for right), in depth-first order. Nothing below such a node is
  visited.
\<close>


fun leaf_paths :: "node \<Rightarrow> (byte \<times> string) list" where
  "leaf_paths (Node c f l r) =
     (case c of
        Some ch \<Rightarrow> [(ch, [])]
      | None \<Rightarrow>
          map (\<lambda>(ch, p). (ch, CHR ''0'' # p)) (case l of None \<Rightarrow> [] | Some ln \<Rightarrow> leaf_paths ln)
          @ map (\<lambda>(ch, p). (ch, CHR ''1'' # p)) (case r of None \<Rightarrow> [] | Some rn \<Rightarrow> leaf_paths rn))"

definition chars_of :: "node \<Rightarrow> byte set" where
  "chars_of n = fst ` set (leaf_paths n)"

text \<open>
  A tree as the program builds it: a node with a byte has no children.
\<close>

fun leafy :: "node \<Rightarrow> bool" where
  "leafy (Node c f l r) =
     (case c of
        Some ch \<Rightarrow> l = None \<and> r = None
      | None \<Rightarrow> (case l of None \<Rightarrow> True | Some ln \<Rightarrow> leafy ln)
                \<and> (case r of None \<Rightarrow> True | Some rn \<Rightarrow> leafy rn))"


text \<open>A bit-string: only the characters \<open>0\<close> and \<open>1\<close>.\<close>

definition binary :: "string \<Rightarrow> bool" where
  "binary s = (\<forall>c \<in> set s. c = CHR ''0'' \<or> c = CHR ''1'')"

text \<open>A code table in which no byte's code is a prefix of the code of another byte.\<close>

definition prefix_free :: "(byte \<rightharpoonup> string) \<Rightarrow> bool" where
  "prefix_free codes =
     (\<forall>a b x y. a \<noteq> b \<and> codes a = Some x \<and> codes b = Some y \<longrightarrow> \<not> prefix x y)"

text \<open>
  Two trees have the same shape when they agree on where nodes are, on which of them
  carry a byte and on the bytes; the weights are not compared.
\<close>

function same_shape :: "node option \<Rightarrow> node option \<Rightarrow> bool" where
  "same_shape None None = True"
| "same_shape (Some (Node c f l r)) (Some (Node c' f' l' r')) =
     (c = c' \<and> same_shape l l' \<and> same_shape r r')"
| "same_shape None (Some n) = False"
| "same_shape (Some n) None = False"
  by pat_completeness auto
termination
  by (relation "measure (\<lambda>(a, b). size_option size a)") auto

text \<open>
  The tree and the encoded bit-string that \<open>compress\<close> computes for the content of
  its input file (the values of \<open>self.root\<close> and of \<open>encoded_data\<close> after line 142).
\<close>

definition encoded_tree :: "byte list \<Rightarrow> node option" where
  "encoded_tree data = (case huffman_encode data of Inl e \<Rightarrow> None | Inr (root, encoded_data) \<Rightarrow> root)"

definition encoded_bits :: "byte list \<Rightarrow> string" where
  "encoded_bits data = (case huffman_encode data of Inl e \<Rightarrow> [] | Inr (root, encoded_data) \<Rightarrow> encoded_data)"

section \<open>Frequency table and tree construction\<close>

lemma counter_add_keys: "fst ` set (counter_add kvs elem) = insert elem (fst ` set kvs)"
  by (induction kvs elem rule: counter_add.induct) auto

lemma foldl_counter_add_keys:
  "fst ` set (foldl counter_add kvs data) = fst ` set kvs \<union> set data"
  by (induction data arbitrary: kvs) (auto simp: counter_add_keys)

lemma build_frequency_table_keys: "fst ` set (build_frequency_table data) = set data"
  by (simp add: build_frequency_table_def foldl_counter_add_keys)

lemma build_frequency_table_Nil: "build_frequency_table data = [] \<longleftrightarrow> data = []"
  using build_frequency_table_keys [of data] by (metis image_is_empty set_empty)

lemma push_leaves_acc:
  "mset (foldl (\<lambda>heap (ch, fr). heappush heap (Node (Some ch) fr None None)) acc freq_table)
   = mset acc + mset (map (\<lambda>(ch, fr). Node (Some ch) fr None None) freq_table)"
  by (induction freq_table arbitrary: acc) (auto simp: case_prod_beta)

lemma push_leaves_mset:
  "mset (push_leaves freq_table) = mset (map (\<lambda>(ch, fr). Node (Some ch) fr None None) freq_table)"
  by (simp add: push_leaves_def push_leaves_acc)

lemma push_leaves_set:
  "set (push_leaves freq_table) = (\<lambda>(ch, fr). Node (Some ch) fr None None) ` set freq_table"
  using push_leaves_mset [of freq_table] by (metis set_mset_mset set_map)

lemma push_leaves_length: "length (push_leaves freq_table) = length freq_table"
  using push_leaves_mset [of freq_table] by (metis size_mset length_map)

lemma merge_step:
  assumes "1 < length heap"
  obtains l r rest where
    "mset heap = add_mset l (add_mset r (mset rest))"
    "merge_loop heap = merge_loop (heappush rest (Node None (freq l + freq r) (Some l) (Some r)))"
proof -
  from assms have "heap \<noteq> []" by auto
  from heappop_Inr [OF this] obtain l h1 where
    p1: "heappop heap = Inr (l, h1)" "mset heap = add_mset l (mset h1)"
    "length heap = Suc (length h1)" by blast
  with assms have "h1 \<noteq> []" by auto
  from heappop_Inr [OF this] obtain r h2 where
    p2: "heappop h1 = Inr (r, h2)" "mset h1 = add_mset r (mset h2)" by blast
  have "merge_loop heap = merge_loop (heappush h2 (Node None (freq l + freq r) (Some l) (Some r)))"
    using assms p1(1) p2(1) by (subst merge_loop.simps) (simp add: Let_def)
  moreover have "mset heap = add_mset l (add_mset r (mset h2))"
    using p1(2) p2(2) by simp
  ultimately show thesis using that by blast
qed

lemma merge_loop_stop: "length heap \<le> 1 \<Longrightarrow> merge_loop heap = Inr heap"
  by (subst merge_loop.simps) simp

lemma length_mset_eq: "mset xs = M \<Longrightarrow> length xs = size M"
  by (metis size_mset)

text \<open>The loop ends with one node, which carries every leaf of the forest.\<close>

lemma merge_loop_root:
  assumes "heap \<noteq> []"
  shows "\<exists>root. merge_loop heap = Inr [root]
           \<and> chars_of root = (\<Union>n \<in> set heap. chars_of n)
           \<and> (1 < length heap \<longrightarrow> char root = None)
           \<and> ((\<forall>n \<in> set heap. leafy n) \<longrightarrow> leafy root)"
  using assms
proof (induction "length heap" arbitrary: heap rule: less_induct)
  case less
  show ?case
  proof (cases "1 < length heap")
    case False
    with less.prems obtain x where "heap = [x]"
      by (cases heap) auto
    then show ?thesis by (simp add: merge_loop_stop)
  next
    case True
    then obtain l r rest where
      m: "mset heap = add_mset l (add_mset r (mset rest))" and
      step: "merge_loop heap = merge_loop (heappush rest (Node None (freq l + freq r) (Some l) (Some r)))"
      by (rule merge_step)
    let ?m = "Node None (freq l + freq r) (Some l) (Some r)"
    let ?h = "heappush rest ?m"
    have len: "length heap = Suc (Suc (length rest))"
      using length_mset_eq [OF m] by simp
    have sh: "set heap = insert l (insert r (set rest))"
      using m by (metis set_mset_mset set_mset_add_mset_insert)
    have s: "set ?h = insert ?m (set rest)"
      by (metis heappush_mset set_mset_mset set_mset_add_mset_insert)
    have cm: "chars_of ?m = chars_of l \<union> chars_of r"
      by (auto simp: chars_of_def image_Un image_image case_prod_beta)
    have "length ?h < length heap" using len by simp
    moreover have "?h \<noteq> []" by (metis heappush_length length_0_conv nat.distinct(1))
    ultimately have "length ?h < length heap" "?h \<noteq> []" by blast+
    from less.hyps [OF this] obtain root where
      r: "merge_loop ?h = Inr [root]" "chars_of root = (\<Union>n \<in> set ?h. chars_of n)"
      "1 < length ?h \<longrightarrow> char root = None" "(\<forall>n \<in> set ?h. leafy n) \<longrightarrow> leafy root"
      by blast
    have "chars_of root = (\<Union>n \<in> set heap. chars_of n)"
      using r(2) by (simp add: s sh cm Un_assoc)
    moreover have "char root = None"
    proof (cases "1 < length ?h")
      case True
      with r(3) show ?thesis by simp
    next
      case False
      then have "rest = []" by simp
      then have "mset ?h = {#?m#}" by simp
      then have "?h = [?m]" by (simp only: mset_single_iff)
      with r(1) have "root = ?m" by (simp add: merge_loop_stop)
      then show ?thesis by simp
    qed
    moreover have "(\<forall>n \<in> set heap. leafy n) \<longrightarrow> leafy root"
      using r(4) by (simp add: s sh)
    ultimately show ?thesis using r(1) step by simp
  qed
qed

lemma build_huffman_tree_root:
  assumes "freq_table \<noteq> []"
  shows "\<exists>root. build_huffman_tree freq_table = Inr (Some root)
           \<and> char root = None \<and> chars_of root = fst ` set freq_table \<and> leafy root"
proof -
  let ?leaf = "\<lambda>(ch, fr). Node (Some ch) fr None None"
  let ?h = "push_leaves freq_table"
  have ne: "?h \<noteq> []" using assms push_leaves_length [of freq_table] by auto
  have leaves: "\<forall>n \<in> set ?h. leafy n"
    by (auto simp: push_leaves_set)
  have chars: "(\<Union>n \<in> set ?h. chars_of n) = fst ` set freq_table"
    by (auto simp: push_leaves_set chars_of_def image_iff Bex_def)
  show ?thesis
  proof (cases "length ?h = 1")
    case True
    then obtain x where hx: "?h = [x]"
      by (cases ?h) auto
    from heappop_Inr [OF ne] obtain y h' where
      pop: "heappop ?h = Inr (y, h')" "mset ?h = add_mset y (mset h')" by blast
    with hx have y: "y = x" by (auto simp: add_mset_eq_single)
    have "x \<in> set ?h" using hx by simp
    then obtain ch fr where x: "x = Node (Some ch) fr None None" "(ch, fr) \<in> set freq_table"
      by (auto simp: push_leaves_set)
    have "build_huffman_tree freq_table = Inr (Some (Node None (freq x) (Some x) None))"
      using assms True pop(1) y hx by (simp add: build_huffman_tree_def Let_def)
    moreover have "chars_of (Node None (freq x) (Some x) None) = fst ` set freq_table"
      using chars hx by (simp add: chars_of_def image_image case_prod_beta)
    ultimately show ?thesis using x(1) by simp
  next
    case False
    with ne have "1 < length ?h" by (cases ?h) auto
    with merge_loop_root [OF ne] leaves chars obtain root where
      "merge_loop ?h = Inr [root]" "chars_of root = fst ` set freq_table"
      "char root = None" "leafy root" by auto
    then show ?thesis
      using assms False by (simp add: build_huffman_tree_def Let_def)
  qed
qed



section \<open>Code table, encoding and decoding\<close>

lemma leaf_paths_Leaf [simp]: "leaf_paths (Node (Some ch) f l r) = [(ch, [])]"
  by simp

lemma in_leaf_paths_Internal:
  "(ch, p) \<in> set (leaf_paths (Node None f l r)) \<longleftrightarrow>
     (\<exists>ln q. l = Some ln \<and> p = CHR ''0'' # q \<and> (ch, q) \<in> set (leaf_paths ln))
   \<or> (\<exists>rn q. r = Some rn \<and> p = CHR ''1'' # q \<and> (ch, q) \<in> set (leaf_paths rn))"
  by (cases l; cases r) auto

lemma chars_of_Internal:
  "chars_of (Node None f l r) =
     (case l of None \<Rightarrow> {} | Some ln \<Rightarrow> chars_of ln) \<union> (case r of None \<Rightarrow> {} | Some rn \<Rightarrow> chars_of rn)"
  by (cases l; cases r) (auto simp: chars_of_def image_Un image_image case_prod_beta)

lemma chars_of_Leaf [simp]: "chars_of (Node (Some ch) f l r) = {ch}"
  by (simp add: chars_of_def)

declare leaf_paths.simps [simp del]

lemma binary_Nil [simp]: "binary []"
  by (simp add: binary_def)

lemma binary_Cons [simp]: "binary (c # s) \<longleftrightarrow> (c = CHR ''0'' \<or> c = CHR ''1'') \<and> binary s"
  by (simp add: binary_def)

lemma binary_append [simp]: "binary (s @ t) \<longleftrightarrow> binary s \<and> binary t"
  by (auto simp: binary_def)

lemma binary_replicate [simp]: "binary (replicate n (CHR ''0''))"
  by (simp add: binary_def)

lemma leaf_paths_binary: "(ch, p) \<in> set (leaf_paths n) \<Longrightarrow> binary p"
proof (induction n arbitrary: p)
  case (Node c f l r)
  show ?case
  proof (cases c)
    case (Some a)
    with Node.prems show ?thesis by simp
  next
    case None
    with Node.prems consider
      ln q where "l = Some ln" "p = CHR ''0'' # q" "(ch, q) \<in> set (leaf_paths ln)"
      | rn q where "r = Some rn" "p = CHR ''1'' # q" "(ch, q) \<in> set (leaf_paths rn)"
      by (auto simp: in_leaf_paths_Internal)
    then show ?thesis
    proof cases
      case 1
      with Node.IH(1) [of ln q] show ?thesis by simp
    next
      case 2
      with Node.IH(2) [of rn q] show ?thesis by simp
    qed
  qed
qed

lemma leaf_paths_prefix:
  "(a, x) \<in> set (leaf_paths n) \<Longrightarrow> (b, y) \<in> set (leaf_paths n) \<Longrightarrow> prefix x y \<Longrightarrow> a = b"
proof (induction n arbitrary: x y)
  case (Node c f l r)
  show ?case
  proof (cases c)
    case (Some ch)
    with Node.prems show ?thesis by simp
  next
    case None
    with Node.prems(1) consider
      ln q where "l = Some ln" "x = CHR ''0'' # q" "(a, q) \<in> set (leaf_paths ln)"
      | rn q where "r = Some rn" "x = CHR ''1'' # q" "(a, q) \<in> set (leaf_paths rn)"
      by (auto simp: in_leaf_paths_Internal)
    then show ?thesis
    proof cases
      case 1
      with Node.prems(2,3) None obtain q' where
        "y = CHR ''0'' # q'" "(b, q') \<in> set (leaf_paths ln)" "prefix q q'"
        by (auto simp: in_leaf_paths_Internal)
      with 1 Node.IH(1) [of ln q q'] show ?thesis by simp
    next
      case 2
      with Node.prems(2,3) None obtain q' where
        "y = CHR ''1'' # q'" "(b, q') \<in> set (leaf_paths rn)" "prefix q q'"
        by (auto simp: in_leaf_paths_Internal)
      with 2 Node.IH(2) [of rn q q'] show ?thesis by simp
    qed
  qed
qed

lemma leaf_paths_root_internal:
  "char n = None \<Longrightarrow> (ch, p) \<in> set (leaf_paths n) \<Longrightarrow> p \<noteq> []"
  by (cases n) (auto simp: in_leaf_paths_Internal)

text \<open>
  What \<open>dfs\<close> stores: a byte of the tree gets the code of one of its leaves, prefixed
  with the bits collected so far; any other entry is left alone.
\<close>

lemma dfs_other: "ch \<notin> chars_of n \<Longrightarrow> dfs n code codes ch = codes ch"
proof (induction n arbitrary: code codes)
  case (Node c f l r)
  show ?case
  proof (cases c)
    case (Some a)
    with Node.prems show ?thesis by auto
  next
    case None
    with Node.prems Node.IH show ?thesis
      by (cases l; cases r) (auto simp: chars_of_Internal)
  qed
qed

lemma dfs_leaf:
  "ch \<in> chars_of n \<Longrightarrow>
   \<exists>p. (ch, p) \<in> set (leaf_paths n)
       \<and> dfs n code codes ch = Some (if code @ p \<noteq> [] then code @ p else ''0'')"
proof (induction n arbitrary: code codes)
  case (Node c f l r)
  show ?case
  proof (cases c)
    case (Some a)
    with Node.prems show ?thesis by auto
  next
    case None
    note c = this
    show ?thesis
    proof (cases "\<exists>rn. r = Some rn \<and> ch \<in> chars_of rn")
      case True
      then obtain rn where rn: "r = Some rn" "ch \<in> chars_of rn" by blast
      let ?codes = "case l of Some ln \<Rightarrow> dfs ln (code @ ''0'') codes | None \<Rightarrow> codes"
      from Node.IH(2) [of rn, OF _ rn(2), of "code @ ''1''" ?codes] rn(1)
      obtain q where q: "(ch, q) \<in> set (leaf_paths rn)"
        "dfs rn (code @ ''1'') ?codes ch = Some (code @ ''1'' @ q)"
        by auto
      have "(ch, CHR ''1'' # q) \<in> set (leaf_paths (Node c f l r))"
        using q(1) rn(1) c by (simp add: in_leaf_paths_Internal)
      moreover have "dfs (Node c f l r) code codes ch = Some (code @ CHR ''1'' # q)"
        using q(2) rn(1) c by simp
      ultimately show ?thesis by (intro exI [of _ "CHR ''1'' # q"]) simp
    next
      case False
      with Node.prems c obtain ln where ln: "l = Some ln" "ch \<in> chars_of ln"
        by (cases l; cases r) (auto simp: chars_of_Internal)
      from Node.IH(1) [of ln, OF _ ln(2), of "code @ ''0''" codes] ln(1)
      obtain q where q: "(ch, q) \<in> set (leaf_paths ln)"
        "dfs ln (code @ ''0'') codes ch = Some (code @ ''0'' @ q)"
        by auto
      have "(ch, CHR ''0'' # q) \<in> set (leaf_paths (Node c f l r))"
        using q(1) ln(1) c by (simp add: in_leaf_paths_Internal)
      moreover have "dfs (Node c f l r) code codes ch = Some (code @ CHR ''0'' # q)"
      proof (cases r)
        case None
        then show ?thesis using q(2) ln(1) c by simp
      next
        case (Some rn)
        with False have "ch \<notin> chars_of rn" by simp
        then show ?thesis using q(2) ln(1) c Some by (simp add: dfs_other)
      qed
      ultimately show ?thesis by (intro exI [of _ "CHR ''0'' # q"]) simp
    qed
  qed
qed

lemma build_codes_entry:
  assumes "build_codes (Some n) ch = Some code"
  shows "\<exists>p. (ch, p) \<in> set (leaf_paths n) \<and> code = (if p \<noteq> [] then p else ''0'')"
proof (cases "ch \<in> chars_of n")
  case True
  from dfs_leaf [OF this, of "[]" Map.empty] obtain p where
    p: "(ch, p) \<in> set (leaf_paths n)"
    "dfs n [] Map.empty ch = Some (if [] @ p \<noteq> [] then [] @ p else ''0'')"
    by blast
  from p(2) assms have "code = (if p \<noteq> [] then p else ''0'')"
    by (cases "p = []") (simp_all add: build_codes_def)
  with p(1) show ?thesis by blast
next
  case False
  from dfs_other [OF this, of "[]" Map.empty] assms show ?thesis
    by (simp add: build_codes_def)
qed

lemma build_codes_prefix_free: "prefix_free (build_codes root)"
proof (cases root)
  case None
  then show ?thesis by (simp add: prefix_free_def build_codes_def)
next
  case (Some n)
  show ?thesis
    unfolding prefix_free_def
  proof (intro allI impI notI, elim conjE)
    fix a b x y
    assume ab: "a \<noteq> b" and a: "build_codes root a = Some x" and b: "build_codes root b = Some y"
      and pre: "prefix x y"
    from build_codes_entry a Some obtain p where
      p: "(a, p) \<in> set (leaf_paths n)" "x = (if p \<noteq> [] then p else ''0'')" by blast
    from build_codes_entry b Some obtain q where
      q: "(b, q) \<in> set (leaf_paths n)" "y = (if q \<noteq> [] then q else ''0'')" by blast
    show False
    proof (cases "char n")
      case None
      with p q have "x = p" "y = q"
        using leaf_paths_root_internal by auto
      with pre p(1) q(1) ab show False
        using leaf_paths_prefix by blast
    next
      case (Some ch)
      then obtain f l r where "n = Node (Some ch) f l r" by (cases n) auto
      with p(1) q(1) ab show False by simp
    qed
  qed
qed

lemma build_codes_internal_root:
  assumes "char n = None" and "ch \<in> chars_of n"
  shows "\<exists>p. build_codes (Some n) ch = Some p \<and> p \<noteq> [] \<and> (ch, p) \<in> set (leaf_paths n)"
proof -
  from dfs_leaf [OF assms(2), of "[]" Map.empty] obtain p where
    p: "(ch, p) \<in> set (leaf_paths n)"
    "dfs n [] Map.empty ch = Some (if [] @ p \<noteq> [] then [] @ p else ''0'')"
    by blast
  have "p \<noteq> []" using assms(1) p(1) by (rule leaf_paths_root_internal)
  with p show ?thesis by (simp add: build_codes_def)
qed

subsection \<open>Decoding\<close>

lemma decode_loop_walk:
  assumes "char root = None"
  shows "(ch, p) \<in> set (leaf_paths n) \<Longrightarrow>
         decode_loop root (p @ rest) (Some n) decoded =
           (if rest = [] then Inr (decoded @ [ch])
            else decode_loop root rest (Some root) (decoded @ [ch]))"
proof (induction n arbitrary: p)
  case (Node c f l r)
  show ?case
  proof (cases c)
    case (Some a)
    with Node.prems have [simp]: "p = []" "a = ch" by auto
    show ?thesis
      using Some assms by (cases rest) (auto simp: Let_def)
  next
    case None
    with Node.prems consider
      ln q where "l = Some ln" "p = CHR ''0'' # q" "(ch, q) \<in> set (leaf_paths ln)"
      | rn q where "r = Some rn" "p = CHR ''1'' # q" "(ch, q) \<in> set (leaf_paths rn)"
      by (auto simp: in_leaf_paths_Internal)
    then show ?thesis
    proof cases
      case 1
      with Node.IH(1) [of ln q] None show ?thesis by simp
    next
      case 2
      with Node.IH(2) [of rn q] None show ?thesis by simp
    qed
  qed
qed

lemma encode_decode:
  assumes root: "char root = None"
    and codes: "\<forall>ch \<in> set data. \<exists>p. codes ch = Some p \<and> p \<noteq> [] \<and> (ch, p) \<in> set (leaf_paths root)"
    and ne: "data \<noteq> []"
  shows "\<exists>e. encode_data data codes = Inr e \<and> e \<noteq> [] \<and> binary e
           \<and> decode_loop root e (Some root) decoded = Inr (decoded @ data)"
  using codes ne
proof (induction data arbitrary: decoded)
  case Nil
  then show ?case by simp
next
  case (Cons ch data)
  from Cons.prems(1) obtain p where
    p: "codes ch = Some p" "p \<noteq> []" "(ch, p) \<in> set (leaf_paths root)" by auto
  note walk = decode_loop_walk [OF root p(3)]
  have bp: "binary p" using p(3) by (rule leaf_paths_binary)
  show ?case
  proof (cases "data = []")
    case True
    with p bp walk [of "[]" decoded] show ?thesis by simp
  next
    case False
    with Cons.IH [of "decoded @ [ch]"] Cons.prems(1) obtain e where
      e: "encode_data data codes = Inr e" "e \<noteq> []" "binary e"
      "decode_loop root e (Some root) (decoded @ [ch]) = Inr (decoded @ [ch] @ data)"
      by auto
    with p bp walk [of e decoded] show ?thesis
      by simp
  qed
qed

section \<open>Bits, bytes and the serialized tree\<close>

lemma to_bits_msb0: "v < 2 ^ n \<Longrightarrow> to_bits (Suc n) v = CHR ''0'' # to_bits n v"
proof (induction n arbitrary: v)
  case 0
  then show ?case by simp
next
  case (Suc n)
  then have "v div 2 < 2 ^ n" by simp
  from Suc.IH [OF this] show ?case by simp
qed

lemma to_bits_msb1: "v < 2 ^ n \<Longrightarrow> to_bits (Suc n) (2 ^ n + v) = CHR ''1'' # to_bits n v"
proof (induction n arbitrary: v)
  case 0
  then show ?case by simp
next
  case (Suc n)
  then have "v div 2 < 2 ^ n" by simp
  from Suc.IH [OF this] have "to_bits (Suc n) (2 ^ n + v div 2) = CHR ''1'' # to_bits n (v div 2)" .
  moreover have "(2 ^ Suc n + v) div 2 = 2 ^ n + v div 2" by simp
  moreover have "(2 ^ Suc n + v) mod 2 = v mod 2" by simp
  ultimately show ?case
    by (simp only: to_bits.simps append_Cons)
qed

lemma bits_value_binary:
  "binary s \<Longrightarrow>
   \<exists>v. v < 2 ^ length s \<and> to_bits (length s) v = s
       \<and> (\<forall>acc. bits_value s acc = Inr (acc * 2 ^ length s + v))"
proof (induction s)
  case Nil
  then show ?case by simp
next
  case (Cons c s)
  then obtain v where v: "v < 2 ^ length s" "to_bits (length s) v = s"
    "\<And>acc. bits_value s acc = Inr (acc * 2 ^ length s + v)" by auto
  from Cons.prems have "c = CHR ''0'' \<or> c = CHR ''1''" by simp
  then show ?case
  proof
    assume c: "c = CHR ''0''"
    have "to_bits (length (c # s)) v = c # s"
      using to_bits_msb0 [OF v(1)] v(2) c by simp
    moreover have "\<forall>acc. bits_value (c # s) acc = Inr (acc * 2 ^ length (c # s) + v)"
      using c v(3) by (simp add: mult.assoc mult.commute)
    moreover have "v < 2 ^ length (c # s)" using v(1) by simp
    ultimately show ?thesis by blast
  next
    assume c: "c = CHR ''1''"
    have "to_bits (length (c # s)) (2 ^ length s + v) = c # s"
      using to_bits_msb1 [OF v(1)] v(2) c by simp
    moreover have "\<forall>acc. bits_value (c # s) acc = Inr (acc * 2 ^ length (c # s) + (2 ^ length s + v))"
      using c v(3) by (simp add: algebra_simps)
    moreover have "2 ^ length s + v < 2 ^ length (c # s)" using v(1) by simp
    ultimately show ?thesis by blast
  qed
qed

lemma chunk_roundtrip:
  assumes "binary c" and "length c = 8"
  shows "\<exists>v. int_base2 c = Inr v \<and> v < 256 \<and> format_08b (of_nat v) = c"
proof -
  from bits_value_binary [OF assms(1)] assms(2) obtain v where
    v: "v < 2 ^ 8" "to_bits 8 v = c" "bits_value c 0 = Inr v" by auto
  have "c \<noteq> []" using assms(2) by auto
  then have "int_base2 c = Inr v" using v(3) by (simp add: int_base2_def)
  moreover have "unat (of_nat v :: byte) = v"
    using v(1) by (simp add: unat_of_nat)
  ultimately show ?thesis using v(1,2) by (auto simp: format_08b_def)
qed

lemma binary_take_drop: "binary s \<Longrightarrow> binary (take n s) \<and> binary (drop n s)"
  by (metis append_take_drop_id binary_append)

lemma pack_bits_roundtrip:
  "binary s \<Longrightarrow> length s mod 8 = 0 \<Longrightarrow>
   \<exists>bs. pack_bits s = Inr bs \<and> concat (map format_08b bs) = s"
proof (induction "length s" arbitrary: s rule: less_induct)
  case less
  show ?case
  proof (cases "s = []")
    case True
    then show ?thesis by (subst pack_bits.simps) simp
  next
    case False
    with less.prems(2) have len: "8 \<le> length s"
      by (cases "length s < 8") auto
    have b: "binary (take 8 s)" "binary (drop 8 s)"
      using binary_take_drop [OF less.prems(1)] by simp_all
    from chunk_roundtrip [OF b(1)] len obtain v where
      v: "int_base2 (take 8 s) = Inr v" "v < 256" "format_08b (of_nat v) = take 8 s" by auto
    have "(length s - 8) mod 8 = 0"
      using less.prems(2) len by presburger
    then have m: "length (drop 8 s) mod 8 = 0" by simp
    have "length (drop 8 s) < length s" using len by simp
    from less.hyps [OF this b(2) m] obtain bs where
      bs: "pack_bits (drop 8 s) = Inr bs" "concat (map format_08b bs) = drop 8 s"
      by blast
    have "pack_bits s = Inr (of_nat v # bs)"
      using False v(1,2) bs(1) by (subst pack_bits.simps) simp
    moreover have "concat (map format_08b (of_nat v # bs)) = s"
      using v(3) bs(2) by simp
    ultimately show ?thesis by blast
  qed
qed

lemma pad_bits_facts:
  assumes "pad_bits e = (padding, padded)"
  shows "padding = 8 - length e mod 8" and "1 \<le> padding" and "padding \<le> 8"
    and "padded = e @ replicate (if padding = 8 then 0 else padding) (CHR ''0'')"
    and "length padded mod 8 = 0"
    and "strip_padding padding padded = e"
proof -
  show p: "padding = 8 - length e mod 8"
    using assms by (auto simp: pad_bits_def Let_def split: if_splits)
  have m: "length e mod 8 < 8" by simp
  show "1 \<le> padding" "padding \<le> 8" using p m by linarith+
  show q: "padded = e @ replicate (if padding = 8 then 0 else padding) (CHR ''0'')"
    using assms by (auto simp: pad_bits_def Let_def split: if_splits)
  show "length padded mod 8 = 0"
  proof (cases "padding = 8")
    case True
    with p have "length e mod 8 = 0" using m by linarith
    with q True show ?thesis by simp
  next
    case False
    have "(length e + (8 - length e mod 8)) mod 8 = 0"
      using m by presburger
    with q False p show ?thesis by simp
  qed
  show "strip_padding padding padded = e"
    using q p m by (auto simp: strip_padding_def)
qed

lemma pack_u32_roundtrip:
  assumes "n < 2 ^ 32"
  shows "\<exists>bs. pack_u32 n = Inr bs \<and> length bs = 4 \<and> unpack_u32 bs = Inr n"
proof -
  define a where "a = n div 256"
  define b where "b = a div 256"
  define c where "c = b div 256"
  have n: "n = n mod 256 + 256 * a" and a: "a = a mod 256 + 256 * b"
    and b: "b = b mod 256 + 256 * c"
    by (simp_all add: a_def b_def c_def)
  have d2: "n div 65536 = b" and d3: "n div 16777216 = c"
    by (simp_all add: a_def b_def c_def div_mult2_eq)
  have "n div 16777216 < 256" using assms by simp
  then have c: "c mod 256 = c" by (simp add: d3)
  have "n mod 256 + 256 * (a mod 256) + 65536 * (b mod 256) + 16777216 * (c mod 256) = n"
    using n a b c by linarith
  then have "n mod 256 + 256 * (n div 256 mod 256) + 65536 * (n div 65536 mod 256)
          + 16777216 * (n div 16777216 mod 256) = n"
    by (simp only: d2 d3 a_def [symmetric])
  then show ?thesis
    using assms by (simp add: pack_u32_def unpack_u32_def unat_of_nat)
qed

lemma pack_u8_roundtrip:
  assumes "p \<le> 8"
  shows "pack_u8 p = Inr [of_nat p]" and "unpack_u8 [of_nat p] = Inr p"
  using assms by (simp_all add: pack_u8_def unpack_u8_def unat_of_nat)

subsection \<open>Tree serialization\<close>

lemma serialize_keeps_paths:
  "\<exists>n'. deserialize_tree (serialize_tree (Some n)) = Some n'
        \<and> char n' = char n \<and> leaf_paths n' = leaf_paths n"
proof (induction n)
  case (Node c f l r)
  show ?case
  proof (cases c)
    case (Some ch)
    then show ?thesis by (simp add: leaf_paths.simps)
  next
    case None
    have l: "case l of None \<Rightarrow> deserialize_tree (serialize_tree l) = None
             | Some ln \<Rightarrow> \<exists>n'. deserialize_tree (serialize_tree l) = Some n'
                               \<and> leaf_paths n' = leaf_paths ln"
      using Node.IH(1) by (cases l) auto
    have r: "case r of None \<Rightarrow> deserialize_tree (serialize_tree r) = None
             | Some rn \<Rightarrow> \<exists>n'. deserialize_tree (serialize_tree r) = Some n'
                               \<and> leaf_paths n' = leaf_paths rn"
      using Node.IH(2) by (cases r) auto
    show ?thesis
      using None l r by (cases l; cases r) (auto simp: leaf_paths.simps Let_def)
  qed
qed

lemma serialize_same_shape:
  "leafy n \<Longrightarrow> same_shape (Some n) (deserialize_tree (serialize_tree (Some n)))"
proof (induction n)
  case (Node c f l r)
  show ?case
  proof (cases c)
    case (Some ch)
    with Node.prems show ?thesis by simp
  next
    case None
    have l: "same_shape l (deserialize_tree (serialize_tree l))"
      using Node.IH(1) Node.prems None by (cases l) auto
    have r: "same_shape r (deserialize_tree (serialize_tree r))"
      using Node.IH(2) Node.prems None by (cases r) auto
    show ?thesis using None l r by (simp add: Let_def)
  qed
qed

section \<open>The written container and the round trip\<close>

lemma huffman_encode_ok:
  assumes "data \<noteq> []"
  shows "\<exists>root e. huffman_encode data = Inr (Some root, e)
           \<and> char root = None \<and> leafy root \<and> chars_of root = set data
           \<and> e \<noteq> [] \<and> binary e
           \<and> (\<forall>r'. char r' = None \<and> leaf_paths r' = leaf_paths root
                 \<longrightarrow> decode_loop r' e (Some r') [] = Inr data)"
proof -
  let ?ft = "build_frequency_table data"
  have "?ft \<noteq> []" using assms by (simp add: build_frequency_table_Nil)
  from build_huffman_tree_root [OF this] obtain root where
    root: "build_huffman_tree ?ft = Inr (Some root)" "char root = None"
    "chars_of root = set data" "leafy root"
    by (auto simp: build_frequency_table_keys)
  let ?codes = "build_codes (Some root)"
  have codes: "\<forall>ch \<in> set data. \<exists>p. ?codes ch = Some p \<and> p \<noteq> [] \<and> (ch, p) \<in> set (leaf_paths root)"
    using build_codes_internal_root [OF root(2)] root(3) by blast
  from encode_decode [OF root(2) codes assms, of "[]"] obtain e where
    e: "encode_data data ?codes = Inr e" "e \<noteq> []" "binary e" by auto
  have "decode_loop r' e (Some r') [] = Inr data"
    if r': "char r' = None" "leaf_paths r' = leaf_paths root" for r'
  proof -
    have "\<forall>ch \<in> set data. \<exists>p. ?codes ch = Some p \<and> p \<noteq> [] \<and> (ch, p) \<in> set (leaf_paths r')"
      using codes r'(2) by simp
    from encode_decode [OF r'(1) this assms, of "[]"] e(1) show ?thesis by simp
  qed
  moreover have "huffman_encode data = Inr (Some root, e)"
    using root(1) e(1) by (simp add: huffman_encode_def)
  ultimately show ?thesis using root e by blast
qed

lemma length_HZIP [simp]: "length HZIP = 4"
  by (simp add: HZIP_def)

text \<open>The file that \<open>compress\<close> writes for a non-empty input, field by field.\<close>

lemma compress_container:
  assumes "fs input_file = Some data" and "data \<noteq> []"
    and "length (dumps (serialize_tree (encoded_tree data))) < 2 ^ 32"
  shows "\<exists>size_bytes compressed_data.
           pack_u32 (length (dumps (serialize_tree (encoded_tree data)))) = Inr size_bytes
         \<and> pack_bits (snd (pad_bits (encoded_bits data))) = Inr compressed_data
         \<and> compress dumps fs input_file output_file =
             (Returned_True,
              fs(output_file \<mapsto> HZIP @ size_bytes @ [of_nat (fst (pad_bits (encoded_bits data)))]
                    @ dumps (serialize_tree (encoded_tree data)) @ compressed_data))"
proof -
  from huffman_encode_ok [OF assms(2)] obtain root e where
    h: "huffman_encode data = Inr (Some root, e)" "binary e" by blast
  then have t: "encoded_tree data = Some root" and b: "encoded_bits data = e"
    by (simp_all add: encoded_tree_def encoded_bits_def)
  obtain padding padded where p: "pad_bits e = (padding, padded)"
    by (cases "pad_bits e")
  note pf = pad_bits_facts [OF p]
  have "binary padded" using h(2) pf(4) by simp
  from pack_bits_roundtrip [OF this pf(5)] obtain compressed_data where
    c: "pack_bits padded = Inr compressed_data" by blast
  from pack_u32_roundtrip [OF assms(3)] t obtain size_bytes where
    s: "pack_u32 (length (dumps (serialize_tree (Some root)))) = Inr size_bytes" by auto
  have "compress dumps fs input_file output_file =
          (Returned_True,
           fs(output_file \<mapsto> HZIP @ size_bytes @ [of_nat padding]
                 @ dumps (serialize_tree (Some root)) @ compressed_data))"
    using assms(1,2) h(1) p c s pack_u8_roundtrip(1) [OF pf(3)]
    by (simp add: compress_def Let_def)
  then show ?thesis using t b p c s by simp
qed

text \<open>What \<open>decompress\<close> makes of such a file.\<close>

lemma decompress_container:
  assumes "fs input_file = Some (HZIP @ size_bytes @ [of_nat padding] @ tree_bytes @ compressed_data)"
    and "pack_u32 (length tree_bytes) = Inr size_bytes"
    and "padding \<le> 8"
    and "loads tree_bytes = Inr tree_data"
  shows "decompress loads fs input_file output_file =
           (case decode_data (strip_padding padding (concat (map format_08b compressed_data)))
                   (deserialize_tree tree_data) of
              Inl e \<Rightarrow> (Caught e, fs)
            | Inr decoded_data \<Rightarrow> (Returned_True, fs(output_file \<mapsto> decoded_data)))"
proof -
  have lt: "length tree_bytes < 2 ^ 32"
    using assms(2) by (auto simp: pack_u32_def split: if_splits)
  from pack_u32_roundtrip [OF lt] assms(2) have
    s: "length size_bytes = 4" "unpack_u32 size_bytes = Inr (length tree_bytes)" by auto
  show ?thesis
    using assms(1,4) s pack_u8_roundtrip(2) [OF assms(3)]
    by (simp add: decompress_def Let_def)
qed

lemma roundtrip:
  assumes "fs input_file = Some data" and "data \<noteq> []"
    and "loads (dumps (serialize_tree (encoded_tree data))) = Inr (serialize_tree (encoded_tree data))"
    and "length (dumps (serialize_tree (encoded_tree data))) < 2 ^ 32"
  shows "fst (compress dumps fs input_file output_file) = Returned_True"
    and "decompress loads (snd (compress dumps fs input_file output_file)) output_file result_file
           = (Returned_True, (snd (compress dumps fs input_file output_file))(result_file \<mapsto> data))"
proof -
  let ?tb = "dumps (serialize_tree (encoded_tree data))"
  from compress_container
    [where fs = fs and input_file = input_file and dumps = dumps and output_file = output_file,
      OF assms(1,2,4)]
  obtain size_bytes compressed_data where
    c: "pack_u32 (length ?tb) = Inr size_bytes"
    "pack_bits (snd (pad_bits (encoded_bits data))) = Inr compressed_data"
    "compress dumps fs input_file output_file =
       (Returned_True,
        fs(output_file \<mapsto> HZIP @ size_bytes @ [of_nat (fst (pad_bits (encoded_bits data)))]
              @ ?tb @ compressed_data))"
    by blast
  show "fst (compress dumps fs input_file output_file) = Returned_True"
    using c(3) by simp
  from huffman_encode_ok [OF assms(2)] obtain root e where
    h: "huffman_encode data = Inr (Some root, e)" "char root = None" "e \<noteq> []" "binary e"
    "\<And>r'. char r' = None \<Longrightarrow> leaf_paths r' = leaf_paths root
        \<Longrightarrow> decode_loop r' e (Some r') [] = Inr data"
    by blast
  then have t: "encoded_tree data = Some root" and b: "encoded_bits data = e"
    by (simp_all add: encoded_tree_def encoded_bits_def)
  obtain padding padded where p: "pad_bits e = (padding, padded)"
    by (cases "pad_bits e")
  note pf = pad_bits_facts [OF p]
  have "binary padded" using h(4) pf(4) by simp
  from pack_bits_roundtrip [OF this pf(5)] c(2) b p have
    bits: "concat (map format_08b compressed_data) = padded" by simp
  from serialize_keeps_paths [of root] obtain r' where
    r': "deserialize_tree (serialize_tree (Some root)) = Some r'" "char r' = None"
    "leaf_paths r' = leaf_paths root"
    using h(2) by auto
  let ?fs = "fs(output_file \<mapsto> HZIP @ size_bytes @ [of_nat padding] @ ?tb @ compressed_data)"
  have "decode_data (strip_padding padding (concat (map format_08b compressed_data)))
          (deserialize_tree (serialize_tree (encoded_tree data))) = Inr data"
    using bits pf(6) t r' h(3) h(5) [OF r'(2,3)] by (simp add: decode_data_def)
  moreover have "?fs output_file = Some (HZIP @ size_bytes @ [of_nat padding] @ ?tb @ compressed_data)"
    by simp
  ultimately have "decompress loads ?fs output_file result_file = (Returned_True, ?fs(result_file \<mapsto> data))"
    using decompress_container
      [where fs = ?fs and input_file = output_file and loads = loads
         and compressed_data = compressed_data and output_file = result_file,
        OF _ c(1) pf(3) assms(3)]
    by simp
  then show "decompress loads (snd (compress dumps fs input_file output_file)) output_file result_file
           = (Returned_True, (snd (compress dumps fs input_file output_file))(result_file \<mapsto> data))"
    using c(3) b p by simp
qed

section \<open>Round trip, code table and serialization\<close>

lemma build_codes_dom: "dom (build_codes (Some n)) = chars_of n"
proof (intro set_eqI iffI)
  fix ch
  assume "ch \<in> dom (build_codes (Some n))"
  then obtain code where "build_codes (Some n) ch = Some code" by blast
  from build_codes_entry [OF this] show "ch \<in> chars_of n"
    by (auto simp: chars_of_def image_iff Bex_def)
next
  fix ch
  assume "ch \<in> chars_of n"
  from dfs_leaf [OF this, of "[]" Map.empty] show "ch \<in> dom (build_codes (Some n))"
    by (auto simp: build_codes_def)
qed

subsection \<open>Sample files\<close>

lemma sample_encode_mixed:
  "huffman_encode [0, 255, 0, 7, 0] =
     Inr (Some (Node None 5
                  (Some (Node None 2 (Some (Node (Some 255) 1 None None))
                                     (Some (Node (Some 7) 1 None None))))
                  (Some (Node (Some 0) 3 None None))),
          ''1001011'')"
  by code_simp

lemma sample_pickle_mixed:
  "sample_dumps (TInternal (TInternal (TLeaf 255) (TLeaf 7)) (TLeaf 0))
     = [0x49, 0x49, 0x4C, 255, 0x4C, 7, 0x4C, 0]"
  "sample_loads [0x49, 0x49, 0x4C, 255, 0x4C, 7, 0x4C, 0]
     = Inr (TInternal (TInternal (TLeaf 255) (TLeaf 7)) (TLeaf 0))"
  by code_simp+

text \<open>
  C1. Round trip. For a non-empty input file, \<open>compress\<close> succeeds and \<open>decompress\<close>,
  run on the file system that \<open>compress\<close> leaves behind, succeeds and writes exactly the
  original bytes to its output file. The two hypotheses on the parameters say that
  \<open>pickle.loads\<close> returns the value that \<open>pickle.dumps\<close> was given for the tree of this
  input, and that the pickled tree is shorter than \<open>2^32\<close> bytes, the most that the
  length field of \<open>struct.pack('<I', ...)\<close> takes.
\<close>

theorem roundtrip_identity:
  assumes "fs input_file = Some data" and "data \<noteq> []"
    and "loads (dumps (serialize_tree (encoded_tree data))) = Inr (serialize_tree (encoded_tree data))"
    and "length (dumps (serialize_tree (encoded_tree data))) < 2 ^ 32"
  shows "fst (compress dumps fs input_file output_file) = Returned_True
       \<and> decompress loads (snd (compress dumps fs input_file output_file)) output_file result_file
           = (Returned_True, (snd (compress dumps fs input_file output_file))(result_file \<mapsto> data))"
  using roundtrip(1)
    [where fs = fs and input_file = input_file and dumps = dumps and loads = loads
       and output_file = output_file, OF assms]
    roundtrip(2)
    [where fs = fs and input_file = input_file and dumps = dumps and loads = loads
       and output_file = output_file and result_file = result_file, OF assms]
  by simp

theorem roundtrip_identity_witness:
  "[''f'' \<mapsto> [0, 255, 0, 7, 0 :: byte]] ''f'' = Some [0, 255, 0, 7, 0]
   \<and> [0, 255, 0, 7, 0 :: byte] \<noteq> []
   \<and> sample_loads (sample_dumps (serialize_tree (encoded_tree [0, 255, 0, 7, 0])))
       = Inr (serialize_tree (encoded_tree [0, 255, 0, 7, 0]))
   \<and> length (sample_dumps (serialize_tree (encoded_tree [0, 255, 0, 7, 0]))) < 2 ^ 32
   \<and> fst (compress sample_dumps [''f'' \<mapsto> [0, 255, 0, 7, 0]] ''f'' ''f.hzip'') = Returned_True
   \<and> decompress sample_loads (snd (compress sample_dumps [''f'' \<mapsto> [0, 255, 0, 7, 0]] ''f'' ''f.hzip''))
         ''f.hzip'' ''f_decompressed''
       = (Returned_True,
          (snd (compress sample_dumps [''f'' \<mapsto> [0, 255, 0, 7, 0]] ''f'' ''f.hzip''))
            (''f_decompressed'' \<mapsto> [0, 255, 0, 7, 0]))"
proof -
  let ?d = "[0, 255, 0, 7, 0 :: byte]"
  have t: "serialize_tree (encoded_tree ?d) = TInternal (TInternal (TLeaf 255) (TLeaf 7)) (TLeaf 0)"
    by (simp add: encoded_tree_def sample_encode_mixed)
  have h1: "[''f'' \<mapsto> ?d] ''f'' = Some ?d" by simp
  have h2: "?d \<noteq> []" by simp
  have h3: "sample_loads (sample_dumps (serialize_tree (encoded_tree ?d)))
              = Inr (serialize_tree (encoded_tree ?d))"
    by (simp only: t sample_pickle_mixed)
  have h4: "length (sample_dumps (serialize_tree (encoded_tree ?d))) < 2 ^ 32"
    by (simp only: t sample_pickle_mixed) simp
  show ?thesis
    using h1 h2 h3 h4 roundtrip_identity
      [where fs = "[''f'' \<mapsto> ?d]" and input_file = "''f''" and data = ?d
         and dumps = sample_dumps and loads = sample_loads
         and output_file = "''f.hzip''" and result_file = "''f_decompressed''", OF h1 h2 h3 h4]
    by blast
qed

text \<open>
  C4. For every non-empty frequency table the tree is built, every byte of the table
  gets a code, and the code table is prefix-free: no byte's code is a prefix of the
  code of another byte.
\<close>

theorem code_table_prefix_free:
  assumes "freq_table \<noteq> []"
  shows "\<exists>root. build_huffman_tree freq_table = Inr (Some root)
           \<and> dom (build_codes (Some root)) = fst ` set freq_table
           \<and> prefix_free (build_codes (Some root))"
  using build_huffman_tree_root [OF assms] build_codes_dom build_codes_prefix_free
  by metis

lemma sample_tree_abc:
  "build_huffman_tree [(0x61, 4), (0x62, 3), (0x63, 1)] =
     Inr (Some (Node None 8 (Some (Node (Some 0x61) 4 None None))
                  (Some (Node None 4 (Some (Node (Some 0x63) 1 None None))
                                     (Some (Node (Some 0x62) 3 None None))))))"
  by code_simp

theorem code_table_prefix_free_witness:
  "[(0x61, 4), (0x62, 3), (0x63 :: byte, 1 :: int)] \<noteq> []
   \<and> dom (build_codes (Some (Node None 8 (Some (Node (Some 0x61) 4 None None))
                  (Some (Node None 4 (Some (Node (Some 0x63) 1 None None))
                                     (Some (Node (Some 0x62) 3 None None)))))))
       = fst ` set [(0x61, 4), (0x62, 3), (0x63, 1)]
   \<and> prefix_free (build_codes (Some (Node None 8 (Some (Node (Some 0x61) 4 None None))
                  (Some (Node None 4 (Some (Node (Some 0x63) 1 None None))
                                     (Some (Node (Some 0x62) 3 None None)))))))"
proof -
  have h: "[(0x61, 4), (0x62, 3), (0x63 :: byte, 1 :: int)] \<noteq> []" by simp
  show ?thesis
    using h code_table_prefix_free [OF h] by (simp add: sample_tree_abc)
qed

text \<open>
  C5. For the tree built from any non-empty frequency table, deserializing its
  serialization gives a tree of the same shape with the same bytes at the leaves. The
  weights are not compared: the rebuilt nodes all have weight 0.
\<close>

theorem serialization_keeps_shape:
  assumes "freq_table \<noteq> []"
  shows "\<exists>t. build_huffman_tree freq_table = Inr (Some t)
           \<and> same_shape (Some t) (deserialize_tree (serialize_tree (Some t)))"
  using build_huffman_tree_root [OF assms] serialize_same_shape by blast

theorem serialization_keeps_shape_witness:
  "[(0x61, 4), (0x62, 3), (0x63 :: byte, 1 :: int)] \<noteq> []
   \<and> same_shape
       (Some (Node None 8 (Some (Node (Some 0x61) 4 None None))
                (Some (Node None 4 (Some (Node (Some 0x63) 1 None None))
                                   (Some (Node (Some 0x62) 3 None None))))))
       (deserialize_tree (serialize_tree
          (Some (Node None 8 (Some (Node (Some 0x61) 4 None None))
                   (Some (Node None 4 (Some (Node (Some 0x63) 1 None None))
                                      (Some (Node (Some 0x62) 3 None None))))))))"
proof -
  have h: "[(0x61, 4), (0x62, 3), (0x63 :: byte, 1 :: int)] \<noteq> []" by simp
  show ?thesis
    using h serialization_keeps_shape [OF h] by (simp add: sample_tree_abc)
qed

section \<open>Fields of the written file\<close>

lemma length_to_bits [simp]: "length (to_bits n v) = n"
  by (induction n arbitrary: v) auto


text \<open>
  The fields of the written file that the properties of the padding speak of: the
  byte at offset 8 and the payload after the tree section.
\<close>

lemma compress_fields:
  assumes "fs input_file = Some data" and "data \<noteq> []"
    and "length (dumps (serialize_tree (encoded_tree data))) < 2 ^ 32"
  shows "\<exists>c. compress dumps fs input_file output_file = (Returned_True, fs(output_file \<mapsto> c))
           \<and> unat (c ! 8) = fst (pad_bits (encoded_bits data))
           \<and> pack_bits (snd (pad_bits (encoded_bits data)))
               = Inr (drop (9 + length (dumps (serialize_tree (encoded_tree data)))) c)
           \<and> concat (map format_08b (drop (9 + length (dumps (serialize_tree (encoded_tree data)))) c))
               = snd (pad_bits (encoded_bits data))"
proof -
  let ?tb = "dumps (serialize_tree (encoded_tree data))"
  let ?e = "encoded_bits data"
  from compress_container
    [where fs = fs and input_file = input_file and dumps = dumps and output_file = output_file,
      OF assms]
  obtain size_bytes compressed_data where
    c: "pack_u32 (length ?tb) = Inr size_bytes"
    "pack_bits (snd (pad_bits ?e)) = Inr compressed_data"
    "compress dumps fs input_file output_file =
       (Returned_True,
        fs(output_file \<mapsto> HZIP @ size_bytes @ [of_nat (fst (pad_bits ?e))] @ ?tb @ compressed_data))"
    by blast
  let ?c = "HZIP @ size_bytes @ [of_nat (fst (pad_bits ?e))] @ ?tb @ compressed_data"
  from pack_u32_roundtrip [OF assms(3)] c(1) have s: "length size_bytes = 4" by auto
  note pf = pad_bits_facts [OF surjective_pairing [of "pad_bits ?e"]]
  have "?c ! 8 = of_nat (fst (pad_bits ?e))"
    using s by (simp add: nth_append)
  then have p: "unat (?c ! 8) = fst (pad_bits ?e)"
    using pf(3) by (simp add: unat_of_nat)
  have d: "drop (9 + length ?tb) ?c = compressed_data"
    using s by simp
  from huffman_encode_ok [OF assms(2)] have "binary ?e"
    by (auto simp: encoded_bits_def)
  then have "binary (snd (pad_bits ?e))"
    using pf(4) by simp
  from pack_bits_roundtrip [OF this pf(5)] c(2) have
    u: "concat (map format_08b compressed_data) = snd (pad_bits ?e)" by simp
  show ?thesis
    using c(2,3) p u by (intro exI [of _ ?c]) (simp only: d simp_thms)
qed


subsection \<open>A file of eight equal bytes\<close>

lemma sample_encode_eight:
  "huffman_encode [0x61, 0x61, 0x61, 0x61, 0x61, 0x61, 0x61, 0x61] =
     Inr (Some (Node None 8 (Some (Node (Some 0x61) 8 None None)) None), ''00000000'')"
  by code_simp

lemma sample_pack_eight: "pack_bits ''00000000'' = Inr [0]"
  by code_simp

lemma sample_compress_eight:
  "compress sample_dumps [''a.txt'' \<mapsto> [0x61, 0x61, 0x61, 0x61, 0x61, 0x61, 0x61, 0x61]]
     ''a.txt'' ''a.hzip''
   = (Returned_True,
      [''a.txt'' \<mapsto> [0x61, 0x61, 0x61, 0x61, 0x61, 0x61, 0x61, 0x61],
       ''a.hzip'' \<mapsto> [0x48, 0x5A, 0x49, 0x50, 4, 0, 0, 0, 8, 0x49, 0x4C, 0x61, 0x4E, 0]])"
  by (simp add: compress_def sample_encode_eight pad_bits_def sample_pack_eight
      pack_u32_def pack_u8_def HZIP_def)

lemma sample_bits_eight:
  "encoded_bits [0x61, 0x61, 0x61, 0x61, 0x61, 0x61, 0x61, 0x61] = ''00000000''"
  "serialize_tree (encoded_tree [0x61, 0x61, 0x61, 0x61, 0x61, 0x61, 0x61, 0x61])
     = TInternal (TLeaf 0x61) TNone"
  by (simp_all add: encoded_bits_def encoded_tree_def sample_encode_eight)

lemma sample_bits_mixed:
  "encoded_bits [0, 255, 0, 7, 0] = ''1001011''"
  "serialize_tree (encoded_tree [0, 255, 0, 7, 0])
     = TInternal (TInternal (TLeaf 255) (TLeaf 7)) (TLeaf 0)"
  by (simp_all add: encoded_bits_def encoded_tree_def sample_encode_mixed)

section \<open>The padding count\<close>

text \<open>
  C2, as the program has it. For every non-empty input the byte at offset 8 of the
  written file is \<open>8 - (n mod 8)\<close>, where \<open>n\<close> is the length of the encoded
  bit-string, so it lies between 1 and 8. When it is between 1 and 7 that many zero bits
  are appended before packing; when it is 8 the length is a multiple of 8 and no bit is
  appended. The payload is the packing of the bit-string so padded. The hypothesis on
  \<open>dumps\<close> is that the pickled tree fits the 32-bit length field; without it
  \<open>struct.pack\<close> raises before the count is written.
\<close>

theorem padding_count_written:
  assumes "fs input_file = Some data" and "data \<noteq> []"
    and "length (dumps (serialize_tree (encoded_tree data))) < 2 ^ 32"
  shows "\<exists>c. compress dumps fs input_file output_file = (Returned_True, fs(output_file \<mapsto> c))
           \<and> unat (c ! 8) = 8 - length (encoded_bits data) mod 8
           \<and> 1 \<le> unat (c ! 8) \<and> unat (c ! 8) \<le> 8
           \<and> pack_bits (encoded_bits data
                          @ replicate (if unat (c ! 8) = 8 then 0 else unat (c ! 8)) (CHR ''0''))
               = Inr (drop (9 + length (dumps (serialize_tree (encoded_tree data)))) c)"
proof -
  from compress_fields
    [where fs = fs and input_file = input_file and dumps = dumps and output_file = output_file,
      OF assms]
  obtain c where
    c: "compress dumps fs input_file output_file = (Returned_True, fs(output_file \<mapsto> c))"
    "unat (c ! 8) = fst (pad_bits (encoded_bits data))"
    "pack_bits (snd (pad_bits (encoded_bits data)))
       = Inr (drop (9 + length (dumps (serialize_tree (encoded_tree data)))) c)"
    by blast
  note pf = pad_bits_facts [OF surjective_pairing [of "pad_bits (encoded_bits data)"]]
  have "snd (pad_bits (encoded_bits data))
          = encoded_bits data @ replicate (if unat (c ! 8) = 8 then 0 else unat (c ! 8)) (CHR ''0'')"
    using pf(4) by (simp only: c(2))
  with c(3) have pk: "pack_bits (encoded_bits data
                          @ replicate (if unat (c ! 8) = 8 then 0 else unat (c ! 8)) (CHR ''0''))
               = Inr (drop (9 + length (dumps (serialize_tree (encoded_tree data)))) c)"
    by simp
  have "unat (c ! 8) = 8 - length (encoded_bits data) mod 8"
    "1 \<le> unat (c ! 8)" "unat (c ! 8) \<le> 8"
    using c(2) pf(1,2,3) by simp_all
  with c(1) pk show ?thesis by blast
qed

theorem padding_count_written_witness:
  "[''f'' \<mapsto> [0, 255, 0, 7, 0 :: byte]] ''f'' = Some [0, 255, 0, 7, 0]
   \<and> [0, 255, 0, 7, 0 :: byte] \<noteq> []
   \<and> length (sample_dumps (serialize_tree (encoded_tree [0, 255, 0, 7, 0]))) < 2 ^ 32
   \<and> (\<exists>c. compress sample_dumps [''f'' \<mapsto> [0, 255, 0, 7, 0]] ''f'' ''f.hzip''
              = (Returned_True, [''f'' \<mapsto> [0, 255, 0, 7, 0], ''f.hzip'' \<mapsto> c])
           \<and> unat (c ! 8) = 8 - length (encoded_bits [0, 255, 0, 7, 0]) mod 8
           \<and> 1 \<le> unat (c ! 8) \<and> unat (c ! 8) \<le> 8
           \<and> pack_bits (encoded_bits [0, 255, 0, 7, 0]
                          @ replicate (if unat (c ! 8) = 8 then 0 else unat (c ! 8)) (CHR ''0''))
               = Inr (drop (9 + length (sample_dumps (serialize_tree (encoded_tree [0, 255, 0, 7, 0])))) c))"
proof -
  let ?d = "[0, 255, 0, 7, 0 :: byte]"
  have h1: "[''f'' \<mapsto> ?d] ''f'' = Some ?d" by simp
  have h2: "?d \<noteq> []" by simp
  have h3: "length (sample_dumps (serialize_tree (encoded_tree ?d))) < 2 ^ 32"
    by (simp only: sample_bits_mixed sample_pickle_mixed) simp
  show ?thesis
    using h1 h2 h3 padding_count_written
      [where fs = "[''f'' \<mapsto> ?d]" and input_file = "''f''" and data = ?d
         and dumps = sample_dumps and output_file = "''f.hzip''", OF h1 h2 h3]
    by blast
qed

text \<open>
  The claim C2 as the specification words it fails on a file of eight bytes \<open>a\<close>: the
  encoded bit-string has eight bits, a multiple of 8, and the count written at offset 8
  is 8, which is neither 0 nor at most 7.
\<close>

theorem padding_count_counterexample:
  "length (encoded_bits [0x61, 0x61, 0x61, 0x61, 0x61, 0x61, 0x61, 0x61]) mod 8 = 0
   \<and> compress sample_dumps [''a.txt'' \<mapsto> [0x61, 0x61, 0x61, 0x61, 0x61, 0x61, 0x61, 0x61]]
        ''a.txt'' ''a.hzip''
      = (Returned_True,
         [''a.txt'' \<mapsto> [0x61, 0x61, 0x61, 0x61, 0x61, 0x61, 0x61, 0x61],
          ''a.hzip'' \<mapsto> [0x48, 0x5A, 0x49, 0x50, 4, 0, 0, 0, 8, 0x49, 0x4C, 0x61, 0x4E, 0]])
   \<and> [0x48, 0x5A, 0x49, 0x50, 4, 0, 0, 0, 8, 0x49, 0x4C, 0x61, 0x4E, 0 :: byte] ! 8 \<noteq> 0
   \<and> \<not> unat ([0x48, 0x5A, 0x49, 0x50, 4, 0, 0, 0, 8, 0x49, 0x4C, 0x61, 0x4E, 0 :: byte] ! 8) \<le> 7"
  by (simp add: sample_bits_eight sample_compress_eight)






section \<open>Particular inputs\<close>

lemma encoded_tree_build:
  assumes "data \<noteq> []"
  shows "build_huffman_tree (build_frequency_table data) = Inr (encoded_tree data)"
proof -
  from huffman_encode_ok [OF assms] obtain root e where
    h: "huffman_encode data = Inr (Some root, e)" by blast
  then have "encoded_tree data = Some root" by (simp add: encoded_tree_def)
  moreover from h have "build_huffman_tree (build_frequency_table data) = Inr (Some root)"
    by (auto simp: huffman_encode_def Let_def split: sum.splits)
  ultimately show ?thesis by simp
qed

subsection \<open>One byte value\<close>

lemma counter_add_replicate:
  "foldl counter_add [(c, k)] (replicate m c) = [(c, k + int m)]"
  by (induction m arbitrary: k) auto

lemma build_frequency_table_replicate:
  "0 < n \<Longrightarrow> build_frequency_table (replicate n c) = [(c, int n)]"
  by (cases n) (simp_all add: build_frequency_table_def counter_add_replicate)

lemma build_huffman_tree_single:
  "build_huffman_tree [(c, k)] = Inr (Some (Node None k (Some (Node (Some c) k None None)) None))"
  by (simp add: build_huffman_tree_def push_leaves_def heappush_def siftdown_def
      siftdown_loop.simps heappop_def)

text \<open>
  C6. An input of \<open>n > 0\<close> copies of one byte gives a root without a byte whose left
  child is the only leaf and whose right child is missing; the code table has the one
  entry \<open>0\<close> for that byte; and the file round-trips, under the hypotheses of C1 on
  \<open>pickle\<close> for the serialized form of this tree.
\<close>

theorem single_byte_value:
  assumes "0 < n" and "fs input_file = Some (replicate n c)"
    and "loads (dumps (TInternal (TLeaf c) TNone)) = Inr (TInternal (TLeaf c) TNone)"
    and "length (dumps (TInternal (TLeaf c) TNone)) < 2 ^ 32"
  shows "build_huffman_tree (build_frequency_table (replicate n c))
           = Inr (Some (Node None (int n) (Some (Node (Some c) (int n) None None)) None))
       \<and> build_codes (Some (Node None (int n) (Some (Node (Some c) (int n) None None)) None))
           = [c \<mapsto> ''0'']
       \<and> fst (compress dumps fs input_file output_file) = Returned_True
       \<and> decompress loads (snd (compress dumps fs input_file output_file)) output_file result_file
           = (Returned_True,
              (snd (compress dumps fs input_file output_file))(result_file \<mapsto> replicate n c))"
proof -
  let ?t = "Node None (int n) (Some (Node (Some c) (int n) None None)) None"
  have ne: "replicate n c \<noteq> []" using assms(1) by simp
  have b: "build_huffman_tree (build_frequency_table (replicate n c)) = Inr (Some ?t)"
    using assms(1) by (simp only: build_frequency_table_replicate build_huffman_tree_single)
  with encoded_tree_build [OF ne] have "encoded_tree (replicate n c) = Some ?t" by simp
  then have s: "serialize_tree (encoded_tree (replicate n c)) = TInternal (TLeaf c) TNone"
    by simp
  have k: "build_codes (Some ?t) = [c \<mapsto> ''0'']"
    by (simp add: build_codes_def)
  from assms(3,4) have p:
    "loads (dumps (serialize_tree (encoded_tree (replicate n c))))
       = Inr (serialize_tree (encoded_tree (replicate n c)))"
    "length (dumps (serialize_tree (encoded_tree (replicate n c)))) < 2 ^ 32"
    by (simp_all only: s)
  show ?thesis
    using b k
      roundtrip(1)
      [where fs = fs and input_file = input_file and dumps = dumps and loads = loads
         and output_file = output_file, OF assms(2) ne p]
      roundtrip(2)
      [where fs = fs and input_file = input_file and dumps = dumps and loads = loads
         and output_file = output_file and result_file = result_file, OF assms(2) ne p]
    by blast
qed

lemma sample_pickle_single:
  "sample_loads (sample_dumps (TInternal (TLeaf 0x41) TNone)) = Inr (TInternal (TLeaf 0x41) TNone)"
  "length (sample_dumps (TInternal (TLeaf 0x41) TNone)) = 4"
  by code_simp+

theorem single_byte_value_witness:
  "(0 :: nat) < 1000
   \<and> [''A.bin'' \<mapsto> replicate 1000 (0x41 :: byte)] ''A.bin'' = Some (replicate 1000 0x41)
   \<and> sample_loads (sample_dumps (TInternal (TLeaf 0x41) TNone)) = Inr (TInternal (TLeaf 0x41) TNone)
   \<and> length (sample_dumps (TInternal (TLeaf 0x41) TNone)) < 2 ^ 32
   \<and> build_huffman_tree (build_frequency_table (replicate 1000 0x41))
       = Inr (Some (Node None (int 1000) (Some (Node (Some 0x41) (int 1000) None None)) None))
   \<and> build_codes (Some (Node None (int 1000) (Some (Node (Some 0x41) (int 1000) None None)) None))
       = [0x41 \<mapsto> ''0'']
   \<and> fst (compress sample_dumps [''A.bin'' \<mapsto> replicate 1000 0x41] ''A.bin'' ''A.hzip'') = Returned_True
   \<and> decompress sample_loads
        (snd (compress sample_dumps [''A.bin'' \<mapsto> replicate 1000 0x41] ''A.bin'' ''A.hzip''))
        ''A.hzip'' ''A_decompressed''
       = (Returned_True,
          (snd (compress sample_dumps [''A.bin'' \<mapsto> replicate 1000 0x41] ''A.bin'' ''A.hzip''))
            (''A_decompressed'' \<mapsto> replicate 1000 0x41))"
proof -
  have h1: "(0 :: nat) < 1000" by simp
  have h2: "[''A.bin'' \<mapsto> replicate 1000 (0x41 :: byte)] ''A.bin'' = Some (replicate 1000 0x41)"
    by (simp only: fun_upd_same)
  have h3: "sample_loads (sample_dumps (TInternal (TLeaf 0x41) TNone))
              = Inr (TInternal (TLeaf 0x41) TNone)"
    by (rule sample_pickle_single)
  have h4: "length (sample_dumps (TInternal (TLeaf 0x41) TNone)) < 2 ^ 32"
    by (simp only: sample_pickle_single) simp
  show ?thesis
    using h1 h2 h3 h4 single_byte_value
      [where n = 1000 and c = "0x41" and fs = "[''A.bin'' \<mapsto> replicate 1000 0x41]"
         and input_file = "''A.bin''" and dumps = sample_dumps and loads = sample_loads
         and output_file = "''A.hzip''" and result_file = "''A_decompressed''", OF h1 h2 h3 h4]
    by blast
qed

subsection \<open>The file aaaabbbc\<close>

lemma sample_encode_abc:
  "huffman_encode [0x61, 0x61, 0x61, 0x61, 0x62, 0x62, 0x62, 0x63] =
     Inr (Some (Node None 8 (Some (Node (Some 0x61) 4 None None))
                  (Some (Node None 4 (Some (Node (Some 0x63) 1 None None))
                                     (Some (Node (Some 0x62) 3 None None))))),
          ''000011111110'')"
  by code_simp

lemma sample_codes_abc:
  "build_codes (Some (Node None 8 (Some (Node (Some 0x61) 4 None None))
                  (Some (Node None 4 (Some (Node (Some 0x63) 1 None None))
                                     (Some (Node (Some 0x62) 3 None None))))))
     = [0x61 \<mapsto> ''0'', 0x63 \<mapsto> ''10'', 0x62 \<mapsto> ''11'']"
  by (simp add: build_codes_def)

text \<open>
  C8. For the eight bytes \<open>aaaabbbc\<close> the code table is \<open>a: 0\<close>, \<open>c: 10\<close>, \<open>b: 11\<close>.
  No code of the table is shorter than the code of \<open>a\<close> and none is longer than the
  code of \<open>c\<close> (which is as long as the code of \<open>b\<close>). The length of the encoded
  bit-string is four times the length of the code of \<open>a\<close> plus three times that of
  \<open>b\<close> plus that of \<open>c\<close>, and the file round-trips, under the hypotheses of C1 on
  \<open>pickle\<close> for the serialized form of this tree.
\<close>

theorem scenario_aaaabbbc:
  assumes "fs input_file = Some [0x61, 0x61, 0x61, 0x61, 0x62, 0x62, 0x62, 0x63]"
    and "loads (dumps (TInternal (TLeaf 0x61) (TInternal (TLeaf 0x63) (TLeaf 0x62))))
           = Inr (TInternal (TLeaf 0x61) (TInternal (TLeaf 0x63) (TLeaf 0x62)))"
    and "length (dumps (TInternal (TLeaf 0x61) (TInternal (TLeaf 0x63) (TLeaf 0x62)))) < 2 ^ 32"
  shows "build_codes (encoded_tree [0x61, 0x61, 0x61, 0x61, 0x62, 0x62, 0x62, 0x63])
           = [0x61 \<mapsto> ''0'', 0x63 \<mapsto> ''10'', 0x62 \<mapsto> ''11'']
       \<and> (\<forall>x code. build_codes (encoded_tree [0x61, 0x61, 0x61, 0x61, 0x62, 0x62, 0x62, 0x63]) x = Some code
             \<longrightarrow> length (the (build_codes (encoded_tree [0x61, 0x61, 0x61, 0x61, 0x62, 0x62, 0x62, 0x63]) 0x61))
                   \<le> length code
               \<and> length code
                   \<le> length (the (build_codes (encoded_tree [0x61, 0x61, 0x61, 0x61, 0x62, 0x62, 0x62, 0x63]) 0x63)))
       \<and> length (encoded_bits [0x61, 0x61, 0x61, 0x61, 0x62, 0x62, 0x62, 0x63])
           = 4 * length (the (build_codes (encoded_tree [0x61, 0x61, 0x61, 0x61, 0x62, 0x62, 0x62, 0x63]) 0x61))
             + 3 * length (the (build_codes (encoded_tree [0x61, 0x61, 0x61, 0x61, 0x62, 0x62, 0x62, 0x63]) 0x62))
             + 1 * length (the (build_codes (encoded_tree [0x61, 0x61, 0x61, 0x61, 0x62, 0x62, 0x62, 0x63]) 0x63))
       \<and> fst (compress dumps fs input_file output_file) = Returned_True
       \<and> decompress loads (snd (compress dumps fs input_file output_file)) output_file result_file
           = (Returned_True,
              (snd (compress dumps fs input_file output_file))
                (result_file \<mapsto> [0x61, 0x61, 0x61, 0x61, 0x62, 0x62, 0x62, 0x63]))"
proof -
  let ?d = "[0x61, 0x61, 0x61, 0x61, 0x62, 0x62, 0x62, 0x63 :: byte]"
  let ?t = "Node None 8 (Some (Node (Some 0x61) 4 None None))
              (Some (Node None 4 (Some (Node (Some 0x63) 1 None None))
                                 (Some (Node (Some 0x62) 3 None None))))"
  have t: "encoded_tree ?d = Some ?t" and e: "encoded_bits ?d = ''000011111110''"
    by (simp_all add: encoded_tree_def encoded_bits_def sample_encode_abc)
  have ne: "?d \<noteq> []" by simp
  have s: "serialize_tree (encoded_tree ?d)
             = TInternal (TLeaf 0x61) (TInternal (TLeaf 0x63) (TLeaf 0x62))"
    by (simp add: t)
  from assms(2,3) have p:
    "loads (dumps (serialize_tree (encoded_tree ?d))) = Inr (serialize_tree (encoded_tree ?d))"
    "length (dumps (serialize_tree (encoded_tree ?d))) < 2 ^ 32"
    by (simp_all only: s)
  have k: "build_codes (encoded_tree ?d) = [0x61 \<mapsto> ''0'', 0x63 \<mapsto> ''10'', 0x62 \<mapsto> ''11'']"
    by (simp only: t sample_codes_abc)
  have m: "\<forall>x code. build_codes (encoded_tree ?d) x = Some code
             \<longrightarrow> length (the (build_codes (encoded_tree ?d) 0x61)) \<le> length code
               \<and> length code \<le> length (the (build_codes (encoded_tree ?d) 0x63))"
    by (auto simp: k split: if_splits)
  have l: "length (encoded_bits ?d)
             = 4 * length (the (build_codes (encoded_tree ?d) 0x61))
               + 3 * length (the (build_codes (encoded_tree ?d) 0x62))
               + 1 * length (the (build_codes (encoded_tree ?d) 0x63))"
    by (simp add: k e)
  show ?thesis
    using k m l
      roundtrip(1)
      [where fs = fs and input_file = input_file and dumps = dumps and loads = loads
         and output_file = output_file, OF assms(1) ne p]
      roundtrip(2)
      [where fs = fs and input_file = input_file and dumps = dumps and loads = loads
         and output_file = output_file and result_file = result_file, OF assms(1) ne p]
    by blast
qed

lemma sample_pickle_abc:
  "sample_loads (sample_dumps (TInternal (TLeaf 0x61) (TInternal (TLeaf 0x63) (TLeaf 0x62))))
     = Inr (TInternal (TLeaf 0x61) (TInternal (TLeaf 0x63) (TLeaf 0x62)))"
  "length (sample_dumps (TInternal (TLeaf 0x61) (TInternal (TLeaf 0x63) (TLeaf 0x62)))) = 8"
  by code_simp+

theorem scenario_aaaabbbc_witness:
  "[''t.txt'' \<mapsto> [0x61, 0x61, 0x61, 0x61, 0x62, 0x62, 0x62, 0x63 :: byte]] ''t.txt''
     = Some [0x61, 0x61, 0x61, 0x61, 0x62, 0x62, 0x62, 0x63]
   \<and> sample_loads (sample_dumps (TInternal (TLeaf 0x61) (TInternal (TLeaf 0x63) (TLeaf 0x62))))
       = Inr (TInternal (TLeaf 0x61) (TInternal (TLeaf 0x63) (TLeaf 0x62)))
   \<and> length (sample_dumps (TInternal (TLeaf 0x61) (TInternal (TLeaf 0x63) (TLeaf 0x62)))) < 2 ^ 32
   \<and> build_codes (encoded_tree [0x61, 0x61, 0x61, 0x61, 0x62, 0x62, 0x62, 0x63])
       = [0x61 \<mapsto> ''0'', 0x63 \<mapsto> ''10'', 0x62 \<mapsto> ''11'']
   \<and> build_codes (encoded_tree [0x61, 0x61, 0x61, 0x61, 0x62, 0x62, 0x62, 0x63]) 0x62 = Some ''11''
   \<and> length (the (build_codes (encoded_tree [0x61, 0x61, 0x61, 0x61, 0x62, 0x62, 0x62, 0x63]) 0x61))
       \<le> length ''11''
   \<and> length ''11''
       \<le> length (the (build_codes (encoded_tree [0x61, 0x61, 0x61, 0x61, 0x62, 0x62, 0x62, 0x63]) 0x63))
   \<and> length (encoded_bits [0x61, 0x61, 0x61, 0x61, 0x62, 0x62, 0x62, 0x63])
       = 4 * length (the (build_codes (encoded_tree [0x61, 0x61, 0x61, 0x61, 0x62, 0x62, 0x62, 0x63]) 0x61))
         + 3 * length (the (build_codes (encoded_tree [0x61, 0x61, 0x61, 0x61, 0x62, 0x62, 0x62, 0x63]) 0x62))
         + 1 * length (the (build_codes (encoded_tree [0x61, 0x61, 0x61, 0x61, 0x62, 0x62, 0x62, 0x63]) 0x63))
   \<and> fst (compress sample_dumps [''t.txt'' \<mapsto> [0x61, 0x61, 0x61, 0x61, 0x62, 0x62, 0x62, 0x63]]
          ''t.txt'' ''t.hzip'') = Returned_True
   \<and> decompress sample_loads
        (snd (compress sample_dumps [''t.txt'' \<mapsto> [0x61, 0x61, 0x61, 0x61, 0x62, 0x62, 0x62, 0x63]]
               ''t.txt'' ''t.hzip''))
        ''t.hzip'' ''t_decompressed''
       = (Returned_True,
          (snd (compress sample_dumps [''t.txt'' \<mapsto> [0x61, 0x61, 0x61, 0x61, 0x62, 0x62, 0x62, 0x63]]
                 ''t.txt'' ''t.hzip''))
            (''t_decompressed'' \<mapsto> [0x61, 0x61, 0x61, 0x61, 0x62, 0x62, 0x62, 0x63]))"
proof -
  let ?d = "[0x61, 0x61, 0x61, 0x61, 0x62, 0x62, 0x62, 0x63 :: byte]"
  have h1: "[''t.txt'' \<mapsto> ?d] ''t.txt'' = Some ?d" by simp
  have h2: "sample_loads (sample_dumps (TInternal (TLeaf 0x61) (TInternal (TLeaf 0x63) (TLeaf 0x62))))
              = Inr (TInternal (TLeaf 0x61) (TInternal (TLeaf 0x63) (TLeaf 0x62)))"
    by (rule sample_pickle_abc)
  have h3: "length (sample_dumps (TInternal (TLeaf 0x61) (TInternal (TLeaf 0x63) (TLeaf 0x62)))) < 2 ^ 32"
    by (simp only: sample_pickle_abc) simp
  note c = scenario_aaaabbbc
      [where fs = "[''t.txt'' \<mapsto> ?d]" and input_file = "''t.txt''"
         and dumps = sample_dumps and loads = sample_loads
         and output_file = "''t.hzip''" and result_file = "''t_decompressed''", OF h1 h2 h3]
  from c have k: "build_codes (encoded_tree ?d) = [0x61 \<mapsto> ''0'', 0x63 \<mapsto> ''10'', 0x62 \<mapsto> ''11'']"
    by blast
  then have b: "build_codes (encoded_tree ?d) 0x62 = Some ''11''"
    by simp
  from c b have
    "length (the (build_codes (encoded_tree ?d) 0x61)) \<le> length ''11''"
    "length ''11'' \<le> length (the (build_codes (encoded_tree ?d) 0x63))"
    by blast+
  with h1 h2 h3 k b c show ?thesis by blast
qed

section \<open>Rejected inputs\<close>

text \<open>
  C7. A file whose first four bytes are not the tag \<open>HZIP\<close> (a file shorter than four
  bytes included) makes \<open>decompress\<close> report the format mismatch of line 200. The file
  system is left as it was, so no output is written, and the result does not depend on
  \<open>loads\<close>: nothing is unpickled or decoded.
\<close>

theorem decompress_rejects_other_tag:
  assumes "fs input_file = Some f" and "take 4 f \<noteq> HZIP"
  shows "decompress loads fs input_file output_file = (Not_HZIP, fs)"
  using assms by (simp add: decompress_def Let_def)

theorem decompress_rejects_other_tag_witness:
  "[''a.hzip'' \<mapsto> [0x48, 0x5A, 0x49, 0x51, 0, 0 :: byte]] ''a.hzip''
     = Some [0x48, 0x5A, 0x49, 0x51, 0, 0]
   \<and> take 4 [0x48, 0x5A, 0x49, 0x51, 0, 0 :: byte] \<noteq> HZIP
   \<and> decompress sample_loads [''a.hzip'' \<mapsto> [0x48, 0x5A, 0x49, 0x51, 0, 0]] ''a.hzip'' ''a_decompressed''
     = (Not_HZIP, [''a.hzip'' \<mapsto> [0x48, 0x5A, 0x49, 0x51, 0, 0]])"
proof -
  have f: "[''a.hzip'' \<mapsto> [0x48, 0x5A, 0x49, 0x51, 0, 0 :: byte]] ''a.hzip''
             = Some [0x48, 0x5A, 0x49, 0x51, 0, 0]"
    by simp
  have t: "take 4 [0x48, 0x5A, 0x49, 0x51, 0, 0 :: byte] \<noteq> HZIP"
    by (simp add: HZIP_def)
  show ?thesis
    using f t decompress_rejects_other_tag
      [where fs = "[''a.hzip'' \<mapsto> [0x48, 0x5A, 0x49, 0x51, 0, 0]]" and input_file = "''a.hzip''"
         and f = "[0x48, 0x5A, 0x49, 0x51, 0, 0]" and loads = sample_loads
         and output_file = "''a_decompressed''"]
    by blast
qed



end
